theory Spec2Isabelle
  imports Main "HOL-Library.Sublist" "HOL-Library.Char_ord" "HOL-Library.List_Lexorder"
    "HOL-Library.Product_Lexorder"
begin

section \<open>Strings and file names\<close>

text \<open>
  File names are strings of ASCII characters. \<open>str.lower\<close> maps the 26 upper-case
  letters to their lower-case forms and leaves every other character alone; the
  character class \<open>[a-zA-Z0-9]\<close> of the regular expression in
  \<open>find_common_sequence\<close> is the set of ASCII letters and digits.
\<close>

definition lower_char :: "char \<Rightarrow> char" where
  "lower_char c =
     (case map_of (zip ''ABCDEFGHIJKLMNOPQRSTUVWXYZ'' ''abcdefghijklmnopqrstuvwxyz'') c of
        Some d \<Rightarrow> d
      | None \<Rightarrow> c)"

definition lower :: "string \<Rightarrow> string" where
  "lower s = map lower_char s"

definition is_alnum :: "char \<Rightarrow> bool" where
  "is_alnum c =
     (c \<in> set ''abcdefghijklmnopqrstuvwxyzABCDEFGHIJKLMNOPQRSTUVWXYZ0123456789'')"

text \<open>\<open>str.rfind\<close> for a single character: the index of its last occurrence.\<close>

fun rfind :: "'a \<Rightarrow> 'a list \<Rightarrow> nat option" where
  "rfind c [] = None"
| "rfind c (x # xs) =
     (case rfind c xs of
        Some i \<Rightarrow> Some (Suc i)
      | None \<Rightarrow> if x = c then Some 0 else None)"

text \<open>
  \<open>os.path.splitext\<close> on a name without directory separators: the extension
  starts at the last dot, unless only dots precede that dot (a leading run of dots
  belongs to the base name), in which case the extension is empty.
\<close>

definition splitext :: "string \<Rightarrow> string \<times> string" where
  "splitext p =
     (case rfind (CHR ''.'') p of
        None \<Rightarrow> (p, [])
      | Some dotIndex \<Rightarrow>
          if list_ex (\<lambda>c. c \<noteq> CHR ''.'') (take dotIndex p)
          then (take dotIndex p, drop dotIndex p)
          else (p, []))"

text \<open>\<open>re.search(r'[a-zA-Z0-9]{4,}', s)\<close>: some four consecutive characters of
  \<open>s\<close> are all letters or digits.\<close>

fun re_search_alnum4 :: "string \<Rightarrow> bool" where
  "re_search_alnum4 [] = False"
| "re_search_alnum4 (c # s) =
     (if 4 \<le> length (c # s) \<and> list_all is_alnum (take 4 (c # s)) then True
      else re_search_alnum4 s)"

section \<open>The library matcher behind \<open>find_common_sequence\<close>\<close>

text \<open>
  \<open>find_common_sequence\<close> calls \<open>SequenceMatcher(None, name1, name2)\<close> of
  Python's \<open>difflib\<close> with its default arguments, so no junk predicate is given
  and the automatic junk heuristic is on. The definitions below follow the library:
  \<open>__chain_b\<close> indexes the second string and purges its "popular" characters
  (when the string has at least 200 characters, every character that occurs more
  than \<open>n div 100 + 1\<close> times); \<open>find_longest_match\<close> runs its dynamic programme
  over that index and then extends the best block on both sides over equal
  characters. The junk set itself is empty, so the two closing loops of the library
  routine that extend over junk characters never run and are left out.
\<close>

definition bpopular :: "string \<Rightarrow> char list" where
  "bpopular b =
     (if 200 \<le> length b
      then filter (\<lambda>c. length b div 100 + 1 < length (filter (\<lambda>x. x = c) b)) (remdups b)
      else [])"

definition b2j :: "string \<Rightarrow> char \<Rightarrow> nat list" where
  "b2j b c =
     (if c \<in> set (bpopular b) then []
      else filter (\<lambda>j. b ! j = c) [0..<length b])"

text \<open>The state of the search: the row \<open>j2len\<close> of the previous position of
  \<open>a\<close> and the best block \<open>(besti, bestj, bestsize)\<close> so far.\<close>

type_synonym match = "nat \<times> nat \<times> nat"

definition j2lenget :: "(nat \<rightharpoonup> nat) \<Rightarrow> nat \<Rightarrow> nat" where
  "j2lenget j2len j =
     (case j of 0 \<Rightarrow> 0 | Suc j' \<Rightarrow> (case j2len j' of None \<Rightarrow> 0 | Some k \<Rightarrow> k))"

definition flm_inner :: "(nat \<rightharpoonup> nat) \<Rightarrow> nat \<Rightarrow> (nat \<rightharpoonup> nat) \<times> match \<Rightarrow> nat
    \<Rightarrow> (nat \<rightharpoonup> nat) \<times> match" where
  "flm_inner j2len i s j =
     (case s of (newj2len, besti, bestj, bestsize) \<Rightarrow>
        (let k = j2lenget j2len j + 1 in
         (newj2len(j \<mapsto> k),
          if bestsize < k then (i + 1 - k, j + 1 - k, k) else (besti, bestj, bestsize))))"

definition flm_outer :: "string \<Rightarrow> string \<Rightarrow> (nat \<rightharpoonup> nat) \<times> match \<Rightarrow> nat
    \<Rightarrow> (nat \<rightharpoonup> nat) \<times> match" where
  "flm_outer a b s i =
     (case s of (j2len, best) \<Rightarrow>
        foldl (flm_inner j2len i) (Map.empty, best) (b2j b (a ! i)))"

function extend_left :: "string \<Rightarrow> string \<Rightarrow> match \<Rightarrow> match" where
  "extend_left a b (besti, bestj, bestsize) =
     (if 0 < besti \<and> 0 < bestj \<and> a ! (besti - 1) = b ! (bestj - 1)
      then extend_left a b (besti - 1, bestj - 1, bestsize + 1)
      else (besti, bestj, bestsize))"
  by pat_completeness auto
termination
  by (relation "measure (\<lambda>(a, b, besti, bestj, bestsize). besti)") auto

function extend_right :: "string \<Rightarrow> string \<Rightarrow> match \<Rightarrow> match" where
  "extend_right a b (besti, bestj, bestsize) =
     (if besti + bestsize < length a \<and> bestj + bestsize < length b
         \<and> a ! (besti + bestsize) = b ! (bestj + bestsize)
      then extend_right a b (besti, bestj, bestsize + 1)
      else (besti, bestj, bestsize))"
  by pat_completeness auto
termination
  by (relation "measure (\<lambda>(a, b, besti, bestj, bestsize). length a - (besti + bestsize))") auto

declare extend_left.simps [simp del] extend_right.simps [simp del]

definition find_longest_match :: "string \<Rightarrow> string \<Rightarrow> match" where
  "find_longest_match a b =
     extend_right a b
       (extend_left a b (snd (foldl (flm_outer a b) (Map.empty, 0, 0, 0) [0..<length a])))"

section \<open>\<open>find_common_sequence\<close>\<close>

text \<open>The parameter \<open>min_length\<close> is never passed by a caller; it has its default 4.\<close>

definition find_common_sequence :: "string \<Rightarrow> string \<Rightarrow> string option" where
  "find_common_sequence str1 str2 =
     (let name1 = lower (fst (splitext str1));
          name2 = lower (fst (splitext str2))
      in case find_longest_match name1 name2 of (ma, mb, msize) \<Rightarrow>
           if 4 \<le> msize then
             (let common_str = take msize (drop ma name1)
              in if re_search_alnum4 common_str then Some common_str else None)
           else None)"

section \<open>The file system under the sorted folder\<close>

text \<open>
  A path is the list of its components below the folder being sorted
  (\<open>self.folder_path\<close>, the empty list); \<open>os.path.join\<close> appends a component,
  \<open>os.path.dirname\<close> and \<open>os.path.basename\<close> are \<open>butlast\<close> and \<open>last\<close>.
  The file system lists its regular files and its directories; \<open>os.listdir\<close>
  returns entries in the order of these lists. \<open>locked\<close> holds the paths whose
  move the operating system refuses (a permission error, a file in use): the
  environment's part in a failing \<open>shutil.move\<close>. A refused move is atomic here, it
  leaves the file system as it was.
\<close>

type_synonym path = "string list"

record filesystem =
  files :: "path list"
  dirs :: "path list"
  locked :: "path list"

definition isfile :: "filesystem \<Rightarrow> path \<Rightarrow> bool" where
  "isfile fs p = (p \<in> set (files fs))"

definition isdir :: "filesystem \<Rightarrow> path \<Rightarrow> bool" where
  "isdir fs p = (p = [] \<or> p \<in> set (dirs fs))"

definition path_exists :: "filesystem \<Rightarrow> path \<Rightarrow> bool" where
  "path_exists fs p = (isfile fs p \<or> isdir fs p)"

definition listdir :: "filesystem \<Rightarrow> path \<Rightarrow> string list" where
  "listdir fs d = map last (filter (\<lambda>p. p \<noteq> [] \<and> butlast p = d) (files fs @ dirs fs))"

text \<open>\<open>os.makedirs(p, exist_ok=True)\<close>: nothing to do for a directory; a
  \<open>FileExistsError\<close> (the value \<open>None\<close>) when \<open>p\<close> or one of its ancestors is a
  regular file; otherwise the missing ancestors and \<open>p\<close> are created.\<close>

function makedirs :: "path \<Rightarrow> filesystem \<Rightarrow> filesystem option" where
  "makedirs p fs =
     (if isdir fs p then Some fs
      else if isfile fs p then None
      else (case makedirs (butlast p) fs of
              None \<Rightarrow> None
            | Some fs' \<Rightarrow> Some (fs'\<lparr>dirs := dirs fs' @ [p]\<rparr>)))"
  by pat_completeness auto
termination
  by (relation "measure (\<lambda>(p, fs). length p)") (auto simp: isdir_def)

declare makedirs.simps [simp del]

definition rmdir :: "path \<Rightarrow> filesystem \<Rightarrow> filesystem" where
  "rmdir p fs = fs\<lparr>dirs := removeAll p (dirs fs)\<rparr>"

text \<open>
  \<open>shutil.move(src, dst)\<close>. A destination that is a directory receives the source
  under the source's own name, and the move raises when that name is taken. A regular
  file is renamed onto the destination, replacing a regular file found there; a
  directory is renamed with everything below it. The move raises (\<open>None\<close>) when the
  source does not exist or is locked, or when the destination cannot be written.
  A move that raises leaves the file system as it was. (The library falls back to
  copying and deleting when renaming fails, and can then leave a copy at the
  destination; the model leaves this out.)
\<close>

definition rebase :: "path \<Rightarrow> path \<Rightarrow> path \<Rightarrow> path" where
  "rebase src dst p = (if prefix src p then dst @ drop (length src) p else p)"

definition shutil_move :: "path \<Rightarrow> path \<Rightarrow> filesystem \<Rightarrow> filesystem option" where
  "shutil_move src dst fs =
     (let real_dst = (if isdir fs dst then dst @ [last src] else dst) in
      if src \<in> set (locked fs) then None
      else if isdir fs dst \<and> path_exists fs real_dst then None
      else if \<not> isdir fs (butlast real_dst) then None
      else if isfile fs src then
        Some (fs\<lparr>files := filter (\<lambda>p. p \<noteq> src \<and> p \<noteq> real_dst) (files fs) @ [real_dst]\<rparr>)
      else if src \<in> set (dirs fs) \<and> \<not> isfile fs real_dst \<and> \<not> prefix src real_dst then
        Some (fs\<lparr>files := map (rebase src real_dst) (files fs),
                 dirs := map (rebase src real_dst) (dirs fs)\<rparr>)
      else None)"

section \<open>The sorting engine\<close>

datatype status =
    NoFilesFound
  | Phase1
  | TooManyConflicts path
  | Phase2
  | SortedMedia nat nat

text \<open>The signals of the worker thread. \<open>UpdateProgressRatio c t\<close> stands for
  \<open>update_progress.emit(int(c / t * 100))\<close>, whose value is computed in floating
  point; \<open>UpdateProgress n\<close> is the emission of the literal \<open>n\<close>.\<close>

datatype signal =
    UpdateProgress nat
  | UpdateProgressRatio nat nat
  | StatusUpdate status
  | FinishedSignal

text \<open>The calls of \<open>logging.error\<close>.\<close>

datatype logged =
    ErrorMoving path path
  | ErrorRestoring path path

datatype error = FileExistsError path

record engine =
  disk :: filesystem
  moved_files :: "(path \<times> path) list"
  media_sort_enabled :: bool
  signals :: "signal list"
  error_log :: "logged list"

definition emit :: "signal \<Rightarrow> engine \<Rightarrow> engine" where
  "emit s e = e\<lparr>signals := signals e @ [s]\<rparr>"

definition get_all_files :: "filesystem \<Rightarrow> string list" where
  "get_all_files fs = filter (\<lambda>f. isfile fs [f]) (listdir fs [])"

subsection \<open>\<open>move_file_handling_conflicts\<close>\<close>

fun str_nat :: "nat \<Rightarrow> string" where
  "str_nat n =
     (if n < 10 then [''0123456789'' ! n]
      else str_nat (n div 10) @ [''0123456789'' ! (n mod 10)])"

declare str_nat.simps [simp del]

text \<open>\<open>f"{base}-CF{i}{ext}"\<close> with \<open>base, ext = os.path.splitext(dst)\<close>.\<close>

definition conflict_name :: "path \<Rightarrow> nat \<Rightarrow> path" where
  "conflict_name dst i =
     (case splitext (last dst) of
        (base, ext) \<Rightarrow> butlast dst @ [base @ ''-CF'' @ str_nat i @ ext])"

definition log_error :: "logged \<Rightarrow> engine \<Rightarrow> engine" where
  "log_error x e = e\<lparr>error_log := error_log e @ [x]\<rparr>"

text \<open>The second half of the function, once the final destination is chosen: the
  pair is appended to \<open>moved_files\<close>, then the move is tried; an exception of the
  move is logged and \<open>None\<close> is returned.\<close>

definition perform_move :: "path \<Rightarrow> path \<Rightarrow> engine \<Rightarrow> path option \<times> engine" where
  "perform_move src final_dst e =
     (let e1 = e\<lparr>moved_files := moved_files e @ [(src, final_dst)]\<rparr>
      in case shutil_move src final_dst (disk e1) of
           Some fs' \<Rightarrow> (Some final_dst, e1\<lparr>disk := fs'\<rparr>)
         | None \<Rightarrow> (None, log_error (ErrorMoving src final_dst) e1))"

definition move_file_handling_conflicts :: "path \<Rightarrow> path \<Rightarrow> engine \<Rightarrow> path option \<times> engine" where
  "move_file_handling_conflicts src dst e =
     (let final_dst =
            (if path_exists (disk e) dst
             then (case find (\<lambda>new_dst. \<not> path_exists (disk e) new_dst)
                          (map (conflict_name dst) [1..<100]) of
                     Some new_dst \<Rightarrow> new_dst
                   | None \<Rightarrow> dst)
             else dst)
      in if path_exists (disk e) dst \<and> final_dst = dst
         then (None, emit (StatusUpdate (TooManyConflicts dst)) e)
         else perform_move src final_dst e)"

subsection \<open>\<open>build_similarity_groups\<close>\<close>

text \<open>\<open>itertools.combinations(files, 2)\<close>.\<close>

fun combinations2 :: "'a list \<Rightarrow> ('a \<times> 'a) list" where
  "combinations2 [] = []"
| "combinations2 (x # xs) = map (Pair x) xs @ combinations2 xs"

text \<open>The dictionary \<open>groups\<close> keeps its keys in insertion order; each value is a
  set, kept here as a list without repetitions in insertion order, which is the order
  in which the engine is taken to iterate over it. (Python iterates over a set in the
  order of its hash table; only the order of the files within one group, and of their
  records, hangs on this.)\<close>

fun group_add :: "string \<Rightarrow> string \<Rightarrow> (string \<times> string list) list
    \<Rightarrow> (string \<times> string list) list" where
  "group_add k f [] = [(k, [f])]"
| "group_add k f ((k', s) # gs) =
     (if k = k' then (k', if f \<in> set s then s else s @ [f]) # gs
      else (k', s) # group_add k f gs)"

definition add_pair :: "(string \<times> string list) list \<Rightarrow> string \<times> string
    \<Rightarrow> (string \<times> string list) list" where
  "add_pair groups pr =
     (case pr of (file1, file2) \<Rightarrow>
        (case find_common_sequence file1 file2 of
           None \<Rightarrow> groups
         | Some common \<Rightarrow>
             if common = [] then groups
             else group_add common file2 (group_add common file1 groups)))"

text \<open>\<open>sorted(..., key=..., reverse=True)\<close> is a stable sort of the reversed list,
  reversed again.\<close>

definition sorted_reverse :: "('a \<Rightarrow> 'k::linorder) \<Rightarrow> 'a list \<Rightarrow> 'a list" where
  "sorted_reverse key xs = rev (sort_key key (rev xs))"

definition build_similarity_groups :: "string list \<Rightarrow> (string \<times> string list) list" where
  "build_similarity_groups fs =
     sorted_reverse (\<lambda>x. (length (snd x), length (fst x)))
       (foldl add_pair [] (combinations2 fs))"

subsection \<open>The grouping phase of \<open>run\<close>\<close>

text \<open>\<open>str.strip()\<close> removes leading and trailing white space.\<close>

definition is_space :: "char \<Rightarrow> bool" where
  "is_space c =
     (c \<in> set [CHR '' '', CHR 0x09, CHR 0x0A, CHR 0x0B, CHR 0x0C, CHR 0x0D,
                CHR 0x1C, CHR 0x1D, CHR 0x1E, CHR 0x1F])"

definition strip :: "string \<Rightarrow> string" where
  "strip s = rev (dropWhile is_space (rev (dropWhile is_space s)))"

text \<open>The folder name of a group: the stripped key, \<open>Common_Group\<close> if nothing is
  left, with each of the characters \<open><>"/\|?*\<close> replaced by an underscore.\<close>

definition invalid_chars :: "char list" where
  "invalid_chars =
     [CHR ''<'', CHR ''>'', CHR 0x22, CHR ''/'', CHR 0x5C, CHR ''|'', CHR ''?'', CHR ''*'']"

definition folder_name_of :: "string \<Rightarrow> string" where
  "folder_name_of common_str =
     (let folder_name = (if strip common_str = [] then ''Common_Group'' else strip common_str)
      in map (\<lambda>c. if c \<in> set invalid_chars then CHR ''_'' else c) folder_name)"

text \<open>The local variables of \<open>run\<close> that the loop updates, next to the engine.\<close>

record loop =
  eng :: engine
  processed_files :: "string list"
  processed_count :: nat

definition set_add :: "'a \<Rightarrow> 'a list \<Rightarrow> 'a list" where
  "set_add x xs = (if x \<in> set xs then xs else xs @ [x])"

text \<open>The body of both \<open>for\<close> loops once source and destination are known: the
  move is attempted, and whatever it returns the file is marked as processed,
  counted, and the progress is reported.\<close>

definition move_and_mark :: "nat \<Rightarrow> path \<Rightarrow> loop \<Rightarrow> string \<Rightarrow> loop" where
  "move_and_mark total_files folder l file =
     (let e' = snd (move_file_handling_conflicts [file] (folder @ [file]) (eng l))
      in \<lparr>eng = emit (UpdateProgressRatio (processed_count l + 1) total_files) e',
          processed_files = set_add file (processed_files l),
          processed_count = processed_count l + 1\<rparr>)"

definition move_group_file :: "nat \<Rightarrow> path \<Rightarrow> loop \<Rightarrow> string \<Rightarrow> loop" where
  "move_group_file total_files folder l file =
     (if file \<notin> set (processed_files l) then
        (if path_exists (disk (eng l)) [file]
         then move_and_mark total_files folder l file
         else l)
      else l)"

datatype 'a step = Break 'a | Continue 'a | Raise error 'a

definition remaining_files :: "loop \<Rightarrow> string list" where
  "remaining_files l =
     filter (\<lambda>f. f \<notin> set (processed_files l)) (get_all_files (disk (eng l)))"

definition with_disk :: "filesystem \<Rightarrow> loop \<Rightarrow> loop" where
  "with_disk fs l = l\<lparr>eng := (eng l)\<lparr>disk := fs\<rparr>\<rparr>"

text \<open>One pass through the body of \<open>while True\<close>.\<close>

definition grouping_iteration :: "nat \<Rightarrow> loop \<Rightarrow> loop step" where
  "grouping_iteration total_files l =
     (if remaining_files l = [] then Break l
      else
        (case build_similarity_groups (remaining_files l) of
           [] \<Rightarrow>
             (case makedirs [''Miscellaneous''] (disk (eng l)) of
                None \<Rightarrow> Raise (FileExistsError [''Miscellaneous'']) l
              | Some fs' \<Rightarrow>
                  Break (foldl (move_and_mark total_files [''Miscellaneous''])
                           (with_disk fs' l) (remaining_files l)))
         | (common_str, file_set) # _ \<Rightarrow>
             (case makedirs [folder_name_of common_str] (disk (eng l)) of
                None \<Rightarrow> Raise (FileExistsError [folder_name_of common_str]) l
              | Some fs' \<Rightarrow>
                  (let l' = foldl (move_group_file total_files [folder_name_of common_str])
                              (with_disk fs' l) file_set
                   in Continue
                        (l'\<lparr>eng := emit (UpdateProgressRatio (processed_count l') total_files)
                                     (eng l')\<rparr>)))))"

subsection \<open>\<open>process_media_files\<close>\<close>

definition image_extensions :: "string list" where
  "image_extensions =
     [''.jpg'', ''.jpeg'', ''.png'', ''.gif'', ''.webp'', ''.bmp'', ''.tiff'', ''.tif'',
      ''.heic'', ''.heif'', ''.svg'', ''.eps'', ''.ico'', ''.psd'', ''.xcf'', ''.raw'',
      ''.cr2'', ''.nef'', ''.arw'', ''.dng'']"

definition video_extensions :: "string list" where
  "video_extensions =
     [''.mp4'', ''.mkv'', ''.avi'', ''.mov'', ''.wmv'', ''.flv'', ''.webm'', ''.m4v'',
      ''.mpg'', ''.mpeg'', ''.3gp'', ''.rm'', ''.rmvb'', ''.vob'', ''.ts'', ''.mxf'',
      ''.ogv'']"

definition endswith :: "string \<Rightarrow> string list \<Rightarrow> bool" where
  "endswith s exts = list_ex (\<lambda>e. suffix e s) exts"

definition move_media_file :: "path \<Rightarrow> string \<Rightarrow> engine \<Rightarrow> string \<Rightarrow> engine" where
  "move_media_file subdir kind e file =
     snd (move_file_handling_conflicts (subdir @ [file]) (subdir @ [kind, file]) e)"

text \<open>One kind of media in one subdirectory: nothing happens without files of that
  kind; otherwise the folder is created (which may raise) and every file is moved and
  counted.\<close>

definition move_media :: "path \<Rightarrow> string \<Rightarrow> string list \<Rightarrow> engine \<times> nat
    \<Rightarrow> error \<times> engine + engine \<times> nat" where
  "move_media subdir kind names s =
     (case s of (e, n) \<Rightarrow>
        if names = [] then Inr (e, n)
        else (case makedirs (subdir @ [kind]) (disk e) of
                None \<Rightarrow> Inl (FileExistsError (subdir @ [kind]), e)
              | Some fs' \<Rightarrow>
                  Inr (foldl (move_media_file subdir kind) (e\<lparr>disk := fs'\<rparr>) names,
                       n + length names)))"

definition process_subdir :: "path \<Rightarrow> engine \<times> nat \<times> nat
    \<Rightarrow> error \<times> engine + engine \<times> nat \<times> nat" where
  "process_subdir subdir s =
     (case s of (e, image_count, video_count) \<Rightarrow>
        (let fl = filter (\<lambda>f. isfile (disk e) (subdir @ [f])) (listdir (disk e) subdir);
             images = filter (\<lambda>f. endswith (lower f) image_extensions) fl;
             videos = filter (\<lambda>f. endswith (lower f) video_extensions) fl
         in case move_media subdir ''Images'' images (e, image_count) of
              Inl x \<Rightarrow> Inl x
            | Inr (e1, image_count1) \<Rightarrow>
                (case move_media subdir ''Videos'' videos (e1, video_count) of
                   Inl x \<Rightarrow> Inl x
                 | Inr (e2, video_count2) \<Rightarrow> Inr (e2, image_count1, video_count2))))"

fun process_subdirs :: "path list \<Rightarrow> engine \<times> nat \<times> nat
    \<Rightarrow> error \<times> engine + engine \<times> nat \<times> nat" where
  "process_subdirs [] s = Inr s"
| "process_subdirs (subdir # subdirs) s =
     (case process_subdir subdir s of
        Inl x \<Rightarrow> Inl x
      | Inr s' \<Rightarrow> process_subdirs subdirs s')"

definition media_subdirs :: "filesystem \<Rightarrow> path list" where
  "media_subdirs fs =
     map (\<lambda>item. [item])
       (filter (\<lambda>item. isdir fs [item] \<and> item \<notin> set [''Images'', ''Videos''])
          (listdir fs []))"

definition process_media_files :: "engine \<Rightarrow> error \<times> engine + engine" where
  "process_media_files e =
     (case process_subdirs (media_subdirs (disk e)) (e, 0, 0) of
        Inl x \<Rightarrow> Inl x
      | Inr (e', image_count, video_count) \<Rightarrow>
          Inr (if 0 < image_count \<or> 0 < video_count
               then emit (StatusUpdate (SortedMedia image_count video_count)) e'
               else e'))"

subsection \<open>\<open>undo_sorting\<close> and \<open>UndoThread.run\<close>\<close>

text \<open>The body of the first loop of \<open>undo_sorting\<close> for one record.\<close>

definition restore :: "engine \<Rightarrow> path \<times> path \<Rightarrow> engine" where
  "restore e r =
     (case r of (original_path, current_path) \<Rightarrow>
        if path_exists (disk e) current_path then
          (case (if \<not> path_exists (disk e) (butlast original_path)
                 then makedirs (butlast original_path) (disk e)
                 else Some (disk e)) of
             None \<Rightarrow> log_error (ErrorRestoring current_path original_path) e
           | Some fs1 \<Rightarrow>
               (case shutil_move current_path original_path fs1 of
                  None \<Rightarrow> log_error (ErrorRestoring current_path original_path) (e\<lparr>disk := fs1\<rparr>)
                | Some fs2 \<Rightarrow> e\<lparr>disk := fs2\<rparr>))
        else e)"

definition rmdir_if_empty :: "path \<Rightarrow> filesystem \<Rightarrow> string \<Rightarrow> filesystem" where
  "rmdir_if_empty root fs d =
     (if path_exists fs (root @ [d]) \<and> listdir fs (root @ [d]) = [] then rmdir (root @ [d]) fs
      else fs)"

fun fold_option :: "('a \<Rightarrow> 's \<Rightarrow> 's option) \<Rightarrow> 'a list \<Rightarrow> 's \<Rightarrow> 's option" where
  "fold_option f [] s = Some s"
| "fold_option f (x # xs) s = (case f x s of None \<Rightarrow> None | Some s' \<Rightarrow> fold_option f xs s')"

text \<open>
  The second loop of \<open>undo_sorting\<close>: \<open>os.walk(self.folder_path, topdown=False)\<close>
  lists the directory \<open>root\<close>, walks each of its subdirectories, and only then yields
  \<open>root\<close> with the subdirectories it listed; the loop body removes those of them that
  exist and are empty at that moment. The first argument bounds the depth still to
  be descended; the walk gives \<open>None\<close> when the bound is used up.
\<close>

fun walk_rmdir :: "nat \<Rightarrow> path \<Rightarrow> filesystem \<Rightarrow> filesystem option" where
  "walk_rmdir 0 root fs = None"
| "walk_rmdir (Suc k) root fs =
     (let ds = filter (\<lambda>d. isdir fs (root @ [d])) (listdir fs root)
      in case fold_option (\<lambda>d. walk_rmdir k (root @ [d])) ds fs of
           None \<Rightarrow> None
         | Some fs1 \<Rightarrow> Some (foldl (rmdir_if_empty root) fs1 ds))"

definition dir_depth :: "filesystem \<Rightarrow> nat" where
  "dir_depth fs = foldr max (map length (dirs fs)) 0"

definition undo_sorting :: "engine \<Rightarrow> engine" where
  "undo_sorting e =
     (let e1 = foldl restore e (rev (moved_files e))
      in case walk_rmdir (Suc (dir_depth (disk e1))) [] (disk e1) of
           Some fs' \<Rightarrow> e1\<lparr>disk := fs'\<rparr>
         | None \<Rightarrow> e1)"

text \<open>\<open>UndoThread.run\<close>: the thread holds a reference to the sorting thread (or
  \<open>None\<close>) and has a \<open>finished_signal\<close> of its own; the result is the sorting
  thread afterwards and the signals the undo thread emitted.\<close>

definition undo_thread_run :: "engine option \<Rightarrow> engine option \<times> signal list" where
  "undo_thread_run sorting_thread = (map_option undo_sorting sorting_thread, [FinishedSignal])"

section \<open>Vocabulary of the properties\<close>

text \<open>
  The definitions of this section are not part of the program: they name what the
  theorems below say about it.
\<close>

subsection \<open>Common blocks of two strings\<close>

text \<open>
  \<open>common_block a b (i, j, k)\<close> says that the \<open>k\<close> characters of \<open>a\<close> from
  position \<open>i\<close> are the \<open>k\<close> characters of \<open>b\<close> from position \<open>j\<close>.
  \<open>common_suffix a b i j\<close> is the length of the longest common block that ends
  with the characters at positions \<open>i\<close> of \<open>a\<close> and \<open>j\<close> of \<open>b\<close>, and
  \<open>suffix_row a b i\<close> the row of these lengths that the matcher holds in its
  dictionary \<open>j2len\<close> after position \<open>i\<close> of \<open>a\<close>.
\<close>

definition common_block :: "string \<Rightarrow> string \<Rightarrow> match \<Rightarrow> bool" where
  "common_block a b m =
     (case m of (i, j, k) \<Rightarrow>
        i + k \<le> length a \<and> j + k \<le> length b \<and> take k (drop i a) = take k (drop j b))"

fun common_suffix :: "string \<Rightarrow> string \<Rightarrow> nat \<Rightarrow> nat \<Rightarrow> nat" where
  "common_suffix a b 0 j = (if a ! 0 = b ! j then 1 else 0)"
| "common_suffix a b (Suc i) 0 = (if a ! Suc i = b ! 0 then 1 else 0)"
| "common_suffix a b (Suc i) (Suc j) =
     (if a ! Suc i = b ! Suc j then common_suffix a b i j + 1 else 0)"

definition suffix_row :: "string \<Rightarrow> string \<Rightarrow> nat \<Rightarrow> (nat \<rightharpoonup> nat)" where
  "suffix_row a b i =
     (\<lambda>j. if j < length b \<and> b ! j = a ! i then Some (common_suffix a b i j) else None)"

subsection \<open>Names, destinations and groups\<close>

text \<open>
  \<open>root_names\<close> is the set of names of the files directly under the folder, the
  set that \<open>get_all_files\<close> lists. \<open>final_destination\<close> is the path that
  \<open>move_file_handling_conflicts\<close> settles on for a destination before it moves
  anything: the destination itself when it is free, else the first free conflict
  name in the order of the loop, else none. \<open>unprocessed\<close> is the set of names
  that the next pass of the grouping loop still looks at, and \<open>groups_over\<close> says
  that every group is non-empty and made of names of the given set.
\<close>

definition root_names :: "filesystem \<Rightarrow> string set" where
  "root_names fs = {f. [f] \<in> set (files fs)}"

definition final_destination :: "filesystem \<Rightarrow> path \<Rightarrow> path option" where
  "final_destination fs dst =
     (if path_exists fs dst
      then find (\<lambda>new_dst. \<not> path_exists fs new_dst) (map (conflict_name dst) [1..<100])
      else Some dst)"

definition unprocessed :: "loop \<Rightarrow> string set" where
  "unprocessed l = root_names (disk (eng l)) - set (processed_files l)"

definition groups_over :: "string set \<Rightarrow> (string \<times> string list) list \<Rightarrow> bool" where
  "groups_over A gs = list_all (\<lambda>g. snd g \<noteq> [] \<and> set (snd g) \<subseteq> A) gs"

subsection \<open>Engines and results\<close>

text \<open>\<open>SortingThread(folder_path)\<close> with the media option set by the caller: the
  engine as the constructor leaves it, before \<open>run\<close>. An engine is \<open>fresh\<close>
  when it has moved, emitted and logged nothing yet, whatever its folder and option.
  \<open>final_engine\<close> is the engine a run leaves behind, whether it returned or raised.\<close>

definition fresh_engine :: "filesystem \<Rightarrow> bool \<Rightarrow> engine" where
  "fresh_engine fs media =
     \<lparr>disk = fs, moved_files = [], media_sort_enabled = media, signals = [], error_log = []\<rparr>"

definition fresh :: "engine \<Rightarrow> bool" where
  "fresh e = (moved_files e = [] \<and> signals e = [] \<and> error_log e = [])"

definition final_engine :: "error \<times> engine + engine \<Rightarrow> engine" where
  "final_engine r = (case r of Inl (err, e) \<Rightarrow> e | Inr e \<Rightarrow> e)"

subsection \<open>The media pass\<close>

text \<open>
  \<open>media_record fs\<close> holds of a record that moves a media file out of a
  subfolder of \<open>fs\<close> into the \<open>Images\<close> or \<open>Videos\<close> folder of that subfolder.
  \<open>appends P e e'\<close> says that the move log of \<open>e'\<close> is the one of \<open>e\<close> followed
  by records that all satisfy \<open>P\<close>, and \<open>media_step\<close> that a step keeps the files
  directly under the folder and appends media records only.
\<close>

definition media_record :: "filesystem \<Rightarrow> path \<times> path \<Rightarrow> bool" where
  "media_record fs r =
     (case r of (src, dst) \<Rightarrow>
        length src = 2 \<and> isdir fs [hd src] \<and> hd src \<notin> set [''Images'', ''Videos'']
        \<and> ((endswith (lower (last src)) image_extensions \<and> butlast dst = [hd src, ''Images''])
           \<or> (endswith (lower (last src)) video_extensions \<and> butlast dst = [hd src, ''Videos''])))"

definition appends :: "(path \<times> path \<Rightarrow> bool) \<Rightarrow> engine \<Rightarrow> engine \<Rightarrow> bool" where
  "appends P e e' = (\<exists>new. moved_files e' = moved_files e @ new \<and> list_all P new)"

definition media_step :: "filesystem \<Rightarrow> engine \<Rightarrow> engine \<Rightarrow> bool" where
  "media_step fs0 e e' =
     (root_names (disk e') = root_names (disk e) \<and> appends (media_record fs0) e e')"

subsection \<open>The invariant of the grouping phase\<close>

text \<open>
  A file system is well formed when no path is listed twice as a file and no path is
  both a file and a directory. The names that failed in the grouping phase are read
  off what the engine reported: a logged move error for a source directly under the
  folder, or a too-many-conflicts status for a destination one level below it.
\<close>

definition wf_disk :: "filesystem \<Rightarrow> bool" where
  "wf_disk fs = (distinct (files fs) \<and> set (files fs) \<inter> set (dirs fs) = {})"

fun failure_of_log :: "logged \<Rightarrow> string list" where
  "failure_of_log (ErrorMoving s d) = (if length s = 1 then s else [])"
| "failure_of_log (ErrorRestoring c d) = []"

fun failure_of_signal :: "signal \<Rightarrow> string list" where
  "failure_of_signal (StatusUpdate (TooManyConflicts d)) = (if length d = 2 then [last d] else [])"
| "failure_of_signal s = []"

definition grouping_failures :: "engine \<Rightarrow> string list" where
  "grouping_failures e =
     concat (map failure_of_log (error_log e)) @ concat (map failure_of_signal (signals e))"

definition exhausted :: "engine \<Rightarrow> string \<Rightarrow> bool" where
  "exhausted e f = (\<exists>g. StatusUpdate (TooManyConflicts [g, f]) \<in> set (signals e))"

definition grouping_inv :: "string set \<Rightarrow> loop \<Rightarrow> bool" where
  "grouping_inv N0 l =
     (wf_disk (disk (eng l))
      \<and> root_names (disk (eng l)) \<subseteq> N0
      \<and> set (processed_files l) \<subseteq> N0
      \<and> distinct (processed_files l)
      \<and> processed_count l = length (processed_files l)
      \<and> N0 - set (processed_files l) \<subseteq> root_names (disk (eng l))
      \<and> fst ` set (moved_files (eng l)) \<subseteq> (\<lambda>f. [f]) ` set (processed_files l)
      \<and> distinct (map fst (moved_files (eng l)))
      \<and> (\<forall>r\<in>set (moved_files (eng l)).
            fst r \<in> set (files (disk (eng l))) \<longrightarrow> fst r \<in> set (locked (disk (eng l))))
      \<and> (\<forall>f\<in>set (processed_files l).
            [f] \<in> fst ` set (moved_files (eng l))
            \<or> (f \<in> root_names (disk (eng l)) \<and> exhausted (eng l) f))
      \<and> distinct (grouping_failures (eng l))
      \<and> set (grouping_failures (eng l)) \<subseteq> set (processed_files l) \<inter> root_names (disk (eng l)))"

subsection \<open>The outcome of the media pass\<close>

text \<open>
  What the media pass does to one file: \<open>is_image\<close> and \<open>is_video\<close> are the
  tests of the pass on a file name. \<open>media_outcome e e' sub kind f\<close> says what
  became of the file \<open>f\<close> of the subfolder \<open>sub\<close> between the engines \<open>e\<close>
  and \<open>e'\<close>: a record appended in between moves it to a path in \<open>sub/kind\<close>,
  where it now is, and it is no longer in \<open>sub\<close>; or else the status that all
  conflict names of its destination are taken was emitted in between, they are all
  taken indeed, and the file is still in \<open>sub\<close>.
  \<open>no_media_clash\<close> says that no file one level below the folder is named
  \<open>Images\<close> or \<open>Videos\<close>, so that the pass can create its folders.
\<close>

definition is_image :: "string \<Rightarrow> bool" where
  "is_image f = endswith (lower f) image_extensions"

definition is_video :: "string \<Rightarrow> bool" where
  "is_video f = endswith (lower f) video_extensions"

definition media_outcome :: "engine \<Rightarrow> engine \<Rightarrow> path \<Rightarrow> string \<Rightarrow> string \<Rightarrow> bool" where
  "media_outcome e e' sub kind f =
     ((list_ex (\<lambda>r. fst r = sub @ [f] \<and> butlast (snd r) = sub @ [kind] \<and> isfile (disk e') (snd r))
         (drop (length (moved_files e)) (moved_files e'))
       \<and> \<not> isfile (disk e') (sub @ [f]))
      \<or> (StatusUpdate (TooManyConflicts (sub @ [kind, f]))
            \<in> set (drop (length (signals e)) (signals e'))
          \<and> final_destination (disk e') (sub @ [kind, f]) = None
          \<and> isfile (disk e') (sub @ [f])))"

definition no_media_clash :: "filesystem \<Rightarrow> bool" where
  "no_media_clash fs =
     list_all (\<lambda>p. length p = 2 \<longrightarrow> last p \<notin> set [''Images'', ''Videos'']) (files fs)"

text \<open>
  For the proofs: \<open>media_sources fs subs\<close> is the set of the media files directly
  in the subfolders \<open>subs\<close>, and \<open>media_progress S e e'\<close> relates two engines of
  one pass, the later one on the right: logs and signals only grow, every file
  outside \<open>S\<close> is kept, every new file lies three levels deep, and directories are
  kept.
\<close>

definition media_sources :: "filesystem \<Rightarrow> path set \<Rightarrow> path set" where
  "media_sources fs subs =
     {p. \<exists>s f. p = [s, f] \<and> [s] \<in> subs \<and> isfile fs [s, f] \<and> (is_image f \<or> is_video f)}"

definition media_progress :: "path set \<Rightarrow> engine \<Rightarrow> engine \<Rightarrow> bool" where
  "media_progress S e e' =
     (prefix (moved_files e) (moved_files e') \<and> prefix (signals e) (signals e')
      \<and> locked (disk e') = locked (disk e)
      \<and> (wf_disk (disk e) \<longrightarrow> wf_disk (disk e'))
      \<and> (\<forall>p. isfile (disk e) p \<longrightarrow> p \<notin> S \<longrightarrow> isfile (disk e') p)
      \<and> (\<forall>p. isfile (disk e') p \<longrightarrow> isfile (disk e) p \<or> length p = 3)
      \<and> (\<forall>q. isdir (disk e) q \<longrightarrow> isdir (disk e') q))"

subsection \<open>The invariant of a run over a flat folder\<close>

text \<open>
  The move log of a run, read as a history: \<open>valid_log\<close> says that every record
  moved a file that was there to a path that was free, and \<open>apply_log\<close> gives the
  set of files after the recorded moves. The run of a fresh engine over a flat folder
  (files only, nothing locked) keeps the invariant \<open>sorted_inv\<close>: the move log is a
  valid history from the original files to the current ones, directories are one or
  two levels deep with the second level named \<open>Images\<close> or \<open>Videos\<close>, and the
  original path of every record is a file of the original folder or a file inside a
  group folder whose name is not \<open>Images\<close> or \<open>Videos\<close>.
\<close>

fun apply_log :: "(path \<times> path) list \<Rightarrow> path set \<Rightarrow> path set" where
  "apply_log [] F = F"
| "apply_log (r # rs) F = apply_log rs (insert (snd r) (F - {fst r}))"

fun valid_log :: "(path \<times> path) list \<Rightarrow> path set \<Rightarrow> bool" where
  "valid_log [] F = True"
| "valid_log (r # rs) F = (fst r \<in> F \<and> snd r \<notin> F \<and> valid_log rs (insert (snd r) (F - {fst r})))"

definition media_names :: "string list" where
  "media_names = [''Images'', ''Videos'']"

definition dir_ok :: "filesystem \<Rightarrow> path \<Rightarrow> bool" where
  "dir_ok fs p =
     (length p = 1 \<or> (length p = 2 \<and> [hd p] \<in> set (dirs fs) \<and> last p \<in> set media_names))"

definition src_ok :: "path set \<Rightarrow> path \<Rightarrow> bool" where
  "src_ok F0 s = ((length s = 1 \<and> s \<in> F0) \<or> (length s = 2 \<and> last s \<notin> set media_names))"

definition sorted_inv :: "path set \<Rightarrow> engine \<Rightarrow> bool" where
  "sorted_inv F0 e =
     (wf_disk (disk e) \<and> locked (disk e) = []
      \<and> list_all (\<lambda>p. isdir (disk e) (butlast p)) (files (disk e))
      \<and> list_all (dir_ok (disk e)) (dirs (disk e))
      \<and> valid_log (moved_files e) F0
      \<and> apply_log (moved_files e) F0 = set (files (disk e))
      \<and> list_all (\<lambda>r. isdir (disk e) (butlast (fst r)) \<and> src_ok F0 (fst r)) (moved_files e))"

definition flat_folder :: "filesystem \<Rightarrow> bool" where
  "flat_folder fs =
     (dirs fs = [] \<and> locked fs = [] \<and> distinct (files fs)
      \<and> list_all (\<lambda>p. length p = 1) (files fs))"

text \<open>
  \<open>cleared r fs fs'\<close> relates a file system to the one left by the walk that
  removes the directories below \<open>r\<close>: same files, and of the directories those
  that are not strictly below \<open>r\<close>.
\<close>

definition cleared :: "path \<Rightarrow> filesystem \<Rightarrow> filesystem \<Rightarrow> bool" where
  "cleared r fs fs' =
     (files fs' = files fs \<and> locked fs' = locked fs
      \<and> set (dirs fs') = {p \<in> set (dirs fs). \<not> strict_prefix r p})"

subsection \<open>Example folders\<close>

text \<open>
  \<open>report_folder\<close> holds two versions of a report and an unrelated invoice.
  \<open>stuck_folder\<close> holds two unrelated files, the first of which cannot be moved.
  \<open>crowded_folder\<close> holds one file \<open>a.txt\<close> beside a \<open>Miscellaneous\<close> folder
  in which \<open>a.txt\<close> and all its ninety-nine conflict names are taken.
  \<open>clash_folder\<close> holds a file \<open>abcd\<close> without extension and a file
  \<open>abcd1.txt\<close>, whose common sequence is the name of the first.
  \<open>namesake_folder\<close> holds a file named \<open>Miscellaneous\<close>, a file
  \<open>miscellaneous_2\<close> and an unrelated file. \<open>chain_engine\<close> is an engine after
  a run that moved \<open>pic.jpg\<close> into the folder \<open>trip\<close> and from there into
  \<open>trip/Images\<close>. \<open>album_engine\<close> is an engine before a media pass over a
  folder \<open>trip\<close> with a picture, a clip and a text file, whose \<open>Images\<close>
  folder already holds a picture of the same name.
\<close>

definition clash_folder :: filesystem where
  "clash_folder = \<lparr>files = [[''abcd''], [''abcd1.txt'']], dirs = [], locked = []\<rparr>"

definition namesake_folder :: filesystem where
  "namesake_folder =
     \<lparr>files = [[''Miscellaneous''], [''miscellaneous_2''], [''x.pdf'']], dirs = [], locked = []\<rparr>"

definition chain_engine :: engine where
  "chain_engine =
     \<lparr>disk = \<lparr>files = [[''trip'', ''Images'', ''pic.jpg'']],
              dirs = [[''trip''], [''trip'', ''Images'']], locked = []\<rparr>,
      moved_files = [([''pic.jpg''], [''trip'', ''pic.jpg'']),
                     ([''trip'', ''pic.jpg''], [''trip'', ''Images'', ''pic.jpg''])],
      media_sort_enabled = True, signals = [], error_log = []\<rparr>"

definition album_engine :: engine where
  "album_engine =
     \<lparr>disk = \<lparr>files = [[''trip'', ''pic.JPG''], [''trip'', ''clip.mp4''], [''trip'', ''notes.txt''],
                       [''trip'', ''Images'', ''pic.JPG''], [''top.jpg'']],
              dirs = [[''trip''], [''trip'', ''Images'']], locked = []\<rparr>,
      moved_files = [], media_sort_enabled = True, signals = [], error_log = []\<rparr>"

definition report_folder :: filesystem where
  "report_folder =
     \<lparr>files = [[''report_v1.txt''], [''report_v2.txt''], [''invoice.pdf'']],
      dirs = [], locked = []\<rparr>"

definition stuck_folder :: filesystem where
  "stuck_folder = \<lparr>files = [[''a.txt''], [''b.txt'']], dirs = [], locked = [[''a.txt'']]\<rparr>"


section \<open>Facts about the file system and the mover\<close>

lemma root_files: "set (get_all_files fs) = {f. [f] \<in> set (files fs)}"
  by (auto simp: get_all_files_def listdir_def isfile_def image_iff)

lemma makedirs_files: "makedirs p fs = Some fs' \<Longrightarrow> files fs' = files fs \<and> locked fs' = locked fs"
proof (induction p fs arbitrary: fs' rule: makedirs.induct)
  case (1 p fs)
  show ?case
  proof (cases "isdir fs p")
    case True
    with "1.prems" show ?thesis by (simp add: makedirs.simps)
  next
    case False
    with "1.prems" have nf: "\<not> isfile fs p" by (auto simp: makedirs.simps[of p] split: if_splits)
    from False nf "1.prems" obtain fs1 where m: "makedirs (butlast p) fs = Some fs1"
      and fs': "fs' = fs1\<lparr>dirs := dirs fs1 @ [p]\<rparr>"
      by (auto simp: makedirs.simps[of p] split: option.splits)
    from "1.IH"[OF False nf m] fs' show ?thesis by simp
  qed
qed

lemma rebase_long: "prefix src p \<Longrightarrow> length (rebase src dst p) \<ge> length dst"
  by (simp add: rebase_def)

lemma shutil_move_root_names:
  assumes "shutil_move src dst fs = Some fs'" and "2 \<le> length dst"
  shows "root_names fs' \<subseteq> root_names fs"
proof -
  define real_dst where "real_dst = (if isdir fs dst then dst @ [last src] else dst)"
  have len: "2 \<le> length real_dst" using assms(2) by (simp add: real_dst_def)
  show ?thesis
  proof (cases "isfile fs src")
    case True
    with assms(1) have "fs' = fs\<lparr>files := filter (\<lambda>p. p \<noteq> src \<and> p \<noteq> real_dst) (files fs) @ [real_dst]\<rparr>"
      by (auto simp: shutil_move_def real_dst_def Let_def split: if_splits)
    with len show ?thesis by (auto simp: root_names_def)
  next
    case False
    with assms(1) have fs': "files fs' = map (rebase src real_dst) (files fs)"
      by (auto simp: shutil_move_def real_dst_def Let_def split: if_splits)
    show ?thesis
    proof
      fix f assume "f \<in> root_names fs'"
      then obtain p where p: "p \<in> set (files fs)" "rebase src real_dst p = [f]"
        by (auto simp: root_names_def fs')
      have "\<not> prefix src p"
        using rebase_long[of src p real_dst] p(2) len by auto
      with p show "f \<in> root_names fs" by (simp add: rebase_def root_names_def)
    qed
  qed
qed

lemma length_conflict_name: "dst \<noteq> [] \<Longrightarrow> length (conflict_name dst i) = length dst"
  by (simp add: conflict_name_def split: prod.splits)

lemma finite_root_names: "finite (root_names fs)"
proof -
  have "root_names fs \<subseteq> last ` set (files fs)"
    by (force simp: root_names_def)
  then show ?thesis by (rule finite_subset) simp
qed

lemma root_names_get_all_files: "set (get_all_files fs) = root_names fs"
  by (simp add: root_files root_names_def)

lemma splitext_append: "splitext p = (b, x) \<Longrightarrow> b @ x = p"
  by (auto simp: splitext_def split: option.splits if_splits)

lemma conflict_name_shape:
  "\<exists>n. conflict_name dst i = butlast dst @ [n] \<and> length n \<noteq> length (last dst)"
proof -
  obtain b x where sp: "splitext (last dst) = (b, x)" by (cases "splitext (last dst)")
  have "length (b @ ''-CF'' @ str_nat i @ x) \<noteq> length (last dst)"
    using splitext_append[OF sp, symmetric] by simp
  then show ?thesis by (simp add: conflict_name_def sp)
qed

lemma conflict_name_neq: "conflict_name dst i \<noteq> dst"
proof (cases "dst = []")
  case True
  then show ?thesis using conflict_name_shape[of dst i] by auto
next
  case False
  then have "dst = butlast dst @ [last dst]" by simp
  then show ?thesis using conflict_name_shape[of dst i] by (metis append1_eq_conv)
qed

lemma move_file_handling_conflicts_eq:
  "move_file_handling_conflicts src dst e =
     (case final_destination (disk e) dst of
        None \<Rightarrow> (None, emit (StatusUpdate (TooManyConflicts dst)) e)
      | Some final_dst \<Rightarrow> perform_move src final_dst e)"
proof (cases "path_exists (disk e) dst")
  case False
  then show ?thesis
    by (simp add: move_file_handling_conflicts_def final_destination_def)
next
  case True
  show ?thesis
  proof (cases "find (\<lambda>new_dst. \<not> path_exists (disk e) new_dst) (map (conflict_name dst) [1..<100])")
    case None
    with True show ?thesis
      by (simp add: move_file_handling_conflicts_def final_destination_def)
  next
    case (Some nd)
    then have "nd \<in> set (map (conflict_name dst) [1..<100])"
      by (auto simp: find_Some_iff)
    then have "nd \<noteq> dst" using conflict_name_neq by auto
    with True Some show ?thesis
      by (simp add: move_file_handling_conflicts_def final_destination_def)
  qed
qed

lemma final_destination_Some:
  assumes "final_destination fs dst = Some fd"
  shows "\<not> path_exists fs fd"
    and "fd = dst \<or> (\<exists>i. 1 \<le> i \<and> i < 100 \<and> fd = conflict_name dst i)"
proof -
  show "\<not> path_exists fs fd"
    using assms by (auto simp: final_destination_def find_Some_iff split: if_splits)
  show "fd = dst \<or> (\<exists>i. 1 \<le> i \<and> i < 100 \<and> fd = conflict_name dst i)"
  proof (cases "path_exists fs dst")
    case False
    with assms show ?thesis by (simp add: final_destination_def)
  next
    case True
    with assms have "fd \<in> set (map (conflict_name dst) [1..<100])"
      by (auto simp: final_destination_def find_Some_iff)
    then show ?thesis by auto
  qed
qed

lemma final_destination_shape:
  assumes "final_destination fs dst = Some fd" and "dst \<noteq> []"
  shows "length fd = length dst" and "butlast fd = butlast dst" and "fd \<noteq> []"
proof -
  from final_destination_Some(2)[OF assms(1)]
  consider "fd = dst" | i where "fd = conflict_name dst i" by auto
  then have "length fd = length dst \<and> butlast fd = butlast dst"
  proof cases
    case 1
    then show ?thesis by simp
  next
    case 2
    obtain n where "conflict_name dst i = butlast dst @ [n]"
      using conflict_name_shape[of dst i] by auto
    with 2 assms(2) show ?thesis by simp
  qed
  then show "length fd = length dst" "butlast fd = butlast dst" by simp_all
  then show "fd \<noteq> []" using assms(2) by auto
qed

lemma perform_move_root_names:
  "2 \<le> length fd \<Longrightarrow> root_names (disk (snd (perform_move src fd e))) \<subseteq> root_names (disk e)"
  by (auto simp: perform_move_def log_error_def Let_def split: option.splits
           dest: shutil_move_root_names)

lemma mover_root_names:
  assumes "2 \<le> length dst"
  shows "root_names (disk (snd (move_file_handling_conflicts src dst e))) \<subseteq> root_names (disk e)"
proof (cases "final_destination (disk e) dst")
  case None
  then show ?thesis by (simp add: move_file_handling_conflicts_eq emit_def)
next
  case (Some fd)
  with assms have "2 \<le> length fd"
    using final_destination_shape(1)[OF Some, of ] by (cases dst) auto
  with Some show ?thesis
    by (simp add: move_file_handling_conflicts_eq perform_move_root_names)
qed

lemma set_remaining_files: "set (remaining_files l) = unprocessed l"
  by (auto simp: remaining_files_def unprocessed_def root_names_get_all_files)

lemma move_and_mark_props:
  assumes "folder \<noteq> []"
  shows "root_names (disk (eng (move_and_mark t folder l f))) \<subseteq> root_names (disk (eng l))"
    and "set (processed_files (move_and_mark t folder l f)) = insert f (set (processed_files l))"
  using assms mover_root_names[of "folder @ [f]" "[f]" "eng l"]
  by (cases folder; auto simp: move_and_mark_def Let_def emit_def set_add_def)+

lemma move_group_file_props:
  assumes "folder \<noteq> []"
  shows "root_names (disk (eng (move_group_file t folder l f))) \<subseteq> root_names (disk (eng l))"
    and "set (processed_files l) \<subseteq> set (processed_files (move_group_file t folder l f))"
  using move_and_mark_props[OF assms, where t=t and l=l and f=f]
  by (auto simp: move_group_file_def)

lemma foldl_move_group_file_props:
  assumes "folder \<noteq> []"
  shows "root_names (disk (eng (foldl (move_group_file t folder) l fs))) \<subseteq> root_names (disk (eng l))
       \<and> set (processed_files l) \<subseteq> set (processed_files (foldl (move_group_file t folder) l fs))"
proof (induction fs arbitrary: l)
  case Nil
  show ?case by simp
next
  case (Cons f fs)
  show ?case
    using Cons.IH[of "move_group_file t folder l f"] move_group_file_props[OF assms, where t=t and l=l and f=f]
    by auto
qed

lemma move_group_file_marks:
  assumes "f \<in> unprocessed l"
  shows "f \<in> set (processed_files (move_group_file t folder l f))"
  using assms
  by (auto simp: move_group_file_def unprocessed_def root_names_def path_exists_def isfile_def
                 move_and_mark_def Let_def set_add_def)

section \<open>Groups, and the progress of one pass of the loop\<close>

lemma set_combinations2: "(x, y) \<in> set (combinations2 xs) \<Longrightarrow> x \<in> set xs \<and> y \<in> set xs"
  by (induction xs) auto

lemma group_add_over: "groups_over A gs \<Longrightarrow> f \<in> A \<Longrightarrow> groups_over A (group_add k f gs)"
  by (induction gs) (auto simp: groups_over_def)

lemma add_pair_over:
  "groups_over A gs \<Longrightarrow> fst pr \<in> A \<Longrightarrow> snd pr \<in> A \<Longrightarrow> groups_over A (add_pair gs pr)"
  by (cases pr) (auto simp: add_pair_def group_add_over split: option.splits)

lemma foldl_add_pair_over:
  "groups_over A gs \<Longrightarrow> \<forall>pr\<in>set prs. fst pr \<in> A \<and> snd pr \<in> A
     \<Longrightarrow> groups_over A (foldl add_pair gs prs)"
  by (induction prs arbitrary: gs) (auto simp: add_pair_over)

lemma set_sorted_reverse: "set (sorted_reverse key xs) = set xs"
  by (simp add: sorted_reverse_def)

lemma build_similarity_groups_over: "groups_over (set xs) (build_similarity_groups xs)"
proof -
  have "groups_over (set xs) (foldl add_pair [] (combinations2 xs))"
    by (rule foldl_add_pair_over) (auto simp: groups_over_def dest: set_combinations2)
  then show ?thesis
    by (simp add: build_similarity_groups_def groups_over_def list_all_iff set_sorted_reverse)
qed

lemma grouping_iteration_decreases:
  assumes "grouping_iteration t l = Continue l'"
  shows "unprocessed l' \<subset> unprocessed l"
proof -
  from assms obtain common_str file_set rest fs1 where
    g: "build_similarity_groups (remaining_files l) = (common_str, file_set) # rest"
    and m: "makedirs [folder_name_of common_str] (disk (eng l)) = Some fs1"
    and l': "l' = (foldl (move_group_file t [folder_name_of common_str]) (with_disk fs1 l) file_set)
               \<lparr>eng := emit (UpdateProgressRatio (processed_count (foldl (move_group_file t [folder_name_of common_str]) (with_disk fs1 l) file_set)) t)
                  (eng (foldl (move_group_file t [folder_name_of common_str]) (with_disk fs1 l) file_set))\<rparr>"
    by (auto simp: grouping_iteration_def Let_def split: if_splits list.splits option.splits)
  let ?folder = "[folder_name_of common_str]"
  let ?l1 = "with_disk fs1 l"
  have un1: "unprocessed ?l1 = unprocessed l"
    using makedirs_files[OF m] by (simp add: unprocessed_def with_disk_def root_names_def)
  from build_similarity_groups_over[of "remaining_files l"] g
  have fs: "file_set \<noteq> []" "set file_set \<subseteq> unprocessed l"
    by (auto simp: groups_over_def set_remaining_files)
  then obtain f0 fr where file_set: "file_set = f0 # fr" by (cases file_set) auto
  with fs have f0: "f0 \<in> unprocessed ?l1" by (simp add: un1)
  let ?l2 = "move_group_file t ?folder ?l1 f0"
  let ?l3 = "foldl (move_group_file t ?folder) ?l2 fr"
  have p2: "f0 \<in> set (processed_files ?l2)"
    by (rule move_group_file_marks[OF f0])
  have r2: "root_names (disk (eng ?l2)) \<subseteq> root_names (disk (eng ?l1))"
    and s2: "set (processed_files ?l1) \<subseteq> set (processed_files ?l2)"
    by (rule move_group_file_props; simp)+
  have r3: "root_names (disk (eng ?l3)) \<subseteq> root_names (disk (eng ?l2))"
    and s3: "set (processed_files ?l2) \<subseteq> set (processed_files ?l3)"
    using foldl_move_group_file_props[of ?folder t ?l2 fr] by auto
  have eq: "unprocessed l' = unprocessed ?l3"
    by (simp add: l' file_set unprocessed_def emit_def)
  have "unprocessed ?l3 \<subseteq> unprocessed ?l1 - {f0}"
    using p2 r2 s2 r3 s3 by (auto simp: unprocessed_def)
  with f0 eq un1 show ?thesis by auto
qed

lemma finite_unprocessed: "finite (unprocessed l)"
  by (simp add: unprocessed_def finite_root_names)

subsection \<open>The loop of the grouping phase, and \<open>run\<close>\<close>

text \<open>\<open>while True\<close>: the body is repeated until it breaks or raises. Each pass
  that continues marks at least one more file of the folder as processed, which is
  the measure of the termination proof.\<close>

function grouping_loop :: "nat \<Rightarrow> loop \<Rightarrow> error \<times> loop + loop" where
  "grouping_loop total_files l =
     (case grouping_iteration total_files l of
        Break l' \<Rightarrow> Inr l'
      | Raise err l' \<Rightarrow> Inl (err, l')
      | Continue l' \<Rightarrow> grouping_loop total_files l')"
  by pat_completeness auto
termination
proof (relation "measure (\<lambda>(t, l). card (unprocessed l))")
  show "wf (measure (\<lambda>(t, l). card (unprocessed l)))" by simp
next
  fix total_files l l'
  assume "grouping_iteration total_files l = Continue l'"
  then have "unprocessed l' \<subset> unprocessed l" by (rule grouping_iteration_decreases)
  then have "card (unprocessed l') < card (unprocessed l)"
    by (simp add: finite_unprocessed psubset_card_mono)
  then show "((total_files, l'), total_files, l) \<in> measure (\<lambda>(t, l). card (unprocessed l))"
    by simp
qed

declare grouping_loop.simps [simp del]

text \<open>The first phase of \<open>run\<close>, for a folder with at least one file.\<close>

definition grouping_phase :: "engine \<Rightarrow> error \<times> loop + loop" where
  "grouping_phase e =
     grouping_loop (length (get_all_files (disk e)))
       \<lparr>eng = emit (StatusUpdate Phase1) e, processed_files = [], processed_count = 0\<rparr>"

text \<open>\<open>SortingThread.run\<close>. An exception that nothing catches ends the thread:
  the result is then \<open>Inl\<close>, with the exception and the engine as it was left.\<close>

definition run :: "engine \<Rightarrow> error \<times> engine + engine" where
  "run e =
     (if length (get_all_files (disk e)) = 0
      then Inr (emit FinishedSignal (emit (StatusUpdate NoFilesFound) e))
      else
        (case grouping_phase e of
           Inl (err, l) \<Rightarrow> Inl (err, eng l)
         | Inr l \<Rightarrow>
             (case (if media_sort_enabled (eng l)
                    then process_media_files (emit (StatusUpdate Phase2) (eng l))
                    else Inr (eng l)) of
                Inl x \<Rightarrow> Inl x
              | Inr e2 \<Rightarrow> Inr (emit FinishedSignal (emit (UpdateProgress 100) e2)))))"

section \<open>The similarity check on names of less than 200 characters\<close>

text \<open>
  When the second base name has less than 200 characters the matcher purges
  nothing from its index, and its dynamic programme finds a longest common block of
  the two names: \<open>find_common_sequence\<close> then returns a longest common substring
  of the lower-cased base names when that substring has at least 4 characters and
  a run of 4 letters or digits, and nothing otherwise.
\<close>

lemma common_block_nth:
  "common_block a b (i, j, k) \<longleftrightarrow>
     i + k \<le> length a \<and> j + k \<le> length b \<and> (\<forall>t<k. a ! (i + t) = b ! (j + t))"
  by (auto simp: common_block_def list_eq_iff_nth_eq)

lemma common_suffix_le: "common_suffix a b i j \<le> Suc i \<and> common_suffix a b i j \<le> Suc j"
  by (induction a b i j rule: common_suffix.induct) auto

lemma common_suffix_mismatch: "a ! i \<noteq> b ! j \<Longrightarrow> common_suffix a b i j = 0"
  by (cases i; cases j) auto

lemma common_suffix_nth: "t < common_suffix a b i j \<Longrightarrow> a ! (i - t) = b ! (j - t)"
proof (induction a b i j arbitrary: t rule: common_suffix.induct)
  case (1 a b j)
  then show ?case by (auto split: if_splits)
next
  case (2 a b i)
  then show ?case by (auto split: if_splits)
next
  case (3 a b i j)
  show ?case
  proof (cases t)
    case 0
    with "3.prems" show ?thesis by (auto split: if_splits)
  next
    case (Suc t')
    with "3.prems" have eq: "a ! Suc i = b ! Suc j" and "t' < common_suffix a b i j"
      by (auto split: if_splits)
    from "3.IH"[OF this] Suc show ?thesis by simp
  qed
qed

lemma common_suffix_block:
  assumes "i < length a" and "j < length b"
  shows "common_block a b (Suc i - common_suffix a b i j, Suc j - common_suffix a b i j,
           common_suffix a b i j)"
proof -
  define k where "k = common_suffix a b i j"
  have le: "k \<le> Suc i" "k \<le> Suc j" using common_suffix_le[of a b i j] by (simp_all add: k_def)
  have "a ! (Suc i - k + t) = b ! (Suc j - k + t)" if "t < k" for t
  proof -
    have "k - 1 - t < common_suffix a b i j" using that by (simp add: k_def)
    from common_suffix_nth[OF this] have x: "a ! (i - (k - 1 - t)) = b ! (j - (k - 1 - t))" .
    have e: "i - (k - 1 - t) = Suc i - k + t" "j - (k - 1 - t) = Suc j - k + t"
      using that le by arith+
    show ?thesis using x unfolding e .
  qed
  then show ?thesis
    unfolding k_def[symmetric] common_block_nth using le assms by simp
qed

lemma block_common_suffix:
  "\<forall>t\<le>n. a ! (i + t) = b ! (j + t) \<Longrightarrow> Suc n \<le> common_suffix a b (i + n) (j + n)"
proof (induction n)
  case 0
  then show ?case by (cases i; cases j) auto
next
  case (Suc n)
  from Suc.prems have "\<forall>t\<le>n. a ! (i + t) = b ! (j + t)" by simp
  from Suc.IH[OF this] have "Suc n \<le> common_suffix a b (i + n) (j + n)" .
  moreover from Suc.prems have "a ! (i + Suc n) = b ! (j + Suc n)" by blast
  ultimately show ?case by simp
qed

lemma common_block_bound:
  assumes "common_block a b (i, j, k)" and "0 < k"
  shows "k \<le> common_suffix a b (i + (k - 1)) (j + (k - 1))"
    and "i + (k - 1) < length a" and "j + (k - 1) < length b"
proof -
  from assms have "\<forall>t\<le>k - 1. a ! (i + t) = b ! (j + t)"
    by (auto simp: common_block_nth)
  from block_common_suffix[OF this] assms(2)
  show "k \<le> common_suffix a b (i + (k - 1)) (j + (k - 1))" by simp
  from assms show "i + (k - 1) < length a" "j + (k - 1) < length b"
    by (auto simp: common_block_nth)
qed

lemma flm_inner_fold:
  assumes "i < length a"
    and "\<forall>j\<in>set js. j < length b \<and> j2lenget j2len j + 1 = common_suffix a b i j"
    and "common_block a b best"
  shows "\<exists>m' best'. foldl (flm_inner j2len i) (m, best) js = (m', best')
           \<and> (\<forall>j. m' j = (if j \<in> set js then Some (common_suffix a b i j) else m j))
           \<and> common_block a b best'
           \<and> snd (snd best) \<le> snd (snd best')
           \<and> (\<forall>j\<in>set js. common_suffix a b i j \<le> snd (snd best'))"
  using assms(2,3)
proof (induction js arbitrary: m best)
  case Nil
  then show ?case by simp
next
  case (Cons j js)
  obtain bi bj bs where best: "best = (bi, bj, bs)" by (cases best) auto
  define k where "k = common_suffix a b i j"
  define best1 where "best1 = (if bs < k then (Suc i - k, Suc j - k, k) else (bi, bj, bs))"
  from Cons.prems(1) have j: "j < length b" "j2lenget j2len j + 1 = k"
    by (simp_all add: k_def)
  have step: "flm_inner j2len i (m, best) j = (m(j \<mapsto> k), best1)"
    using j(2) by (simp add: flm_inner_def best best1_def Let_def)
  have cb: "common_block a b best1"
    using common_suffix_block[OF assms(1) j(1)] Cons.prems(2)
    by (simp add: best1_def k_def best)
  have sz: "bs \<le> snd (snd best1)" "k \<le> snd (snd best1)"
    by (simp_all add: best1_def)
  from Cons.prems(1) have rest: "\<forall>j\<in>set js. j < length b \<and> j2lenget j2len j + 1 = common_suffix a b i j"
    by simp
  from Cons.IH[OF rest cb, of "m(j \<mapsto> k)"] obtain m' best' where
    f: "foldl (flm_inner j2len i) (m(j \<mapsto> k), best1) js = (m', best')"
    and m': "\<forall>j'. m' j' = (if j' \<in> set js then Some (common_suffix a b i j') else (m(j \<mapsto> k)) j')"
    and cb': "common_block a b best'"
    and s1: "snd (snd best1) \<le> snd (snd best')"
    and s2: "\<forall>j\<in>set js. common_suffix a b i j \<le> snd (snd best')"
    by blast
  have "foldl (flm_inner j2len i) (m, best) (j # js) = (m', best')"
    by (simp add: step f)
  moreover have "\<forall>j'. m' j' = (if j' \<in> set (j # js) then Some (common_suffix a b i j') else m j')"
    using m' by (auto simp: k_def)
  moreover have "snd (snd best) \<le> snd (snd best')"
    using sz(1) s1 by (simp add: best)
  moreover have "\<forall>j'\<in>set (j # js). common_suffix a b i j' \<le> snd (snd best')"
    using s2 sz(2) s1 by (auto simp: k_def)
  ultimately show ?case using cb' by blast
qed

lemma b2j_short:
  "length b < 200 \<Longrightarrow> b2j b c = filter (\<lambda>j. b ! j = c) [0..<length b]"
  by (simp add: b2j_def bpopular_def)

lemma j2lenget_row:
  assumes "j < length b" and "b ! j = a ! n"
    and "j2len = (case n of 0 \<Rightarrow> Map.empty | Suc n' \<Rightarrow> suffix_row a b n')"
  shows "j2lenget j2len j + 1 = common_suffix a b n j"
proof (cases n)
  case 0
  with assms show ?thesis by (cases j) (simp_all add: j2lenget_def)
next
  case (Suc n')
  show ?thesis
  proof (cases j)
    case 0
    with assms Suc show ?thesis by (simp add: j2lenget_def)
  next
    case j: (Suc j')
    show ?thesis
    proof (cases "b ! j' = a ! n'")
      case True
      with assms Suc j show ?thesis by (simp add: j2lenget_def suffix_row_def)
    next
      case False
      then have "common_suffix a b n' j' = 0" by (simp add: common_suffix_mismatch)
      with False assms Suc j show ?thesis by (simp add: j2lenget_def suffix_row_def)
    qed
  qed
qed

lemma flm_outer_step:
  assumes "n < length a" and "length b < 200"
    and "j2len = (case n of 0 \<Rightarrow> Map.empty | Suc n' \<Rightarrow> suffix_row a b n')"
    and "common_block a b best"
    and "\<forall>i<n. \<forall>j<length b. common_suffix a b i j \<le> snd (snd best)"
  shows "\<exists>best'. flm_outer a b (j2len, best) n = (suffix_row a b n, best')
           \<and> common_block a b best'
           \<and> (\<forall>i<Suc n. \<forall>j<length b. common_suffix a b i j \<le> snd (snd best'))"
proof -
  define js where "js = filter (\<lambda>j. b ! j = a ! n) [0..<length b]"
  have js: "set js = {j. j < length b \<and> b ! j = a ! n}" by (auto simp: js_def)
  have pre: "\<forall>j\<in>set js. j < length b \<and> j2lenget j2len j + 1 = common_suffix a b n j"
    using j2lenget_row[OF _ _ assms(3)] by (simp add: js)
  from flm_inner_fold[OF assms(1) pre assms(4), of Map.empty] obtain m' best' where
    f: "foldl (flm_inner j2len n) (Map.empty, best) js = (m', best')"
    and m': "\<forall>j. m' j = (if j \<in> set js then Some (common_suffix a b n j) else None)"
    and cb: "common_block a b best'"
    and s1: "snd (snd best) \<le> snd (snd best')"
    and s2: "\<forall>j\<in>set js. common_suffix a b n j \<le> snd (snd best')"
    by auto
  have row: "m' = suffix_row a b n"
    using m' by (auto simp: suffix_row_def js fun_eq_iff)
  have "flm_outer a b (j2len, best) n = (suffix_row a b n, best')"
    using f by (simp add: flm_outer_def b2j_short[OF assms(2)] js_def row)
  moreover have "common_suffix a b i j \<le> snd (snd best')" if "i < Suc n" "j < length b" for i j
  proof (cases "i = n")
    case True
    show ?thesis
    proof (cases "b ! j = a ! n")
      case True
      with that s2 \<open>i = n\<close> show ?thesis by (simp add: js)
    next
      case False
      then show ?thesis using \<open>i = n\<close> by (simp add: common_suffix_mismatch)
    qed
  next
    case False
    with that assms(5) s1 show ?thesis by (auto simp: less_Suc_eq intro: order_trans)
  qed
  ultimately show ?thesis using cb by blast
qed

lemma flm_outer_fold:
  assumes "length b < 200" and "n \<le> length a"
  shows "\<exists>j2len best. foldl (flm_outer a b) (Map.empty, 0, 0, 0) [0..<n] = (j2len, best)
           \<and> j2len = (case n of 0 \<Rightarrow> Map.empty | Suc n' \<Rightarrow> suffix_row a b n')
           \<and> common_block a b best
           \<and> (\<forall>i<n. \<forall>j<length b. common_suffix a b i j \<le> snd (snd best))"
  using assms(2)
proof (induction n)
  case 0
  show ?case by (simp add: common_block_def)
next
  case (Suc n)
  then obtain j2len best where
    f: "foldl (flm_outer a b) (Map.empty, 0, 0, 0) [0..<n] = (j2len, best)"
    and r: "j2len = (case n of 0 \<Rightarrow> Map.empty | Suc n' \<Rightarrow> suffix_row a b n')"
    and cb: "common_block a b best"
    and bd: "\<forall>i<n. \<forall>j<length b. common_suffix a b i j \<le> snd (snd best)"
    by auto
  from Suc.prems have n: "n < length a" by simp
  from flm_outer_step[OF n assms(1) r cb bd] obtain best' where
    "flm_outer a b (j2len, best) n = (suffix_row a b n, best')"
    "common_block a b best'"
    "\<forall>i<Suc n. \<forall>j<length b. common_suffix a b i j \<le> snd (snd best')"
    by blast
  then show ?case by (simp add: f)
qed

lemma extend_left_block:
  "common_block a b m \<Longrightarrow>
     common_block a b (extend_left a b m) \<and> snd (snd m) \<le> snd (snd (extend_left a b m))"
proof (induction a b m rule: extend_left.induct)
  case (1 a b besti bestj bestsize)
  show ?case
  proof (cases "0 < besti \<and> 0 < bestj \<and> a ! (besti - 1) = b ! (bestj - 1)")
    case True
    have "common_block a b (besti - 1, bestj - 1, bestsize + 1)"
      unfolding common_block_nth
    proof (intro conjI allI impI)
      from "1.prems" True show "besti - 1 + (bestsize + 1) \<le> length a"
        "bestj - 1 + (bestsize + 1) \<le> length b"
        by (auto simp: common_block_nth)
      fix t assume "t < bestsize + 1"
      show "a ! (besti - 1 + t) = b ! (bestj - 1 + t)"
      proof (cases t)
        case 0
        with True show ?thesis by simp
      next
        case (Suc t')
        with \<open>t < bestsize + 1\<close> "1.prems" have "a ! (besti + t') = b ! (bestj + t')"
          by (simp add: common_block_nth)
        with True Suc show ?thesis by simp
      qed
    qed
    from "1.IH"[OF True this] True show ?thesis
      by (simp add: extend_left.simps[of a b besti bestj bestsize])
  next
    case False
    with "1.prems" show ?thesis
      by (auto simp: extend_left.simps[of a b besti bestj bestsize])
  qed
qed

lemma extend_right_block:
  "common_block a b m \<Longrightarrow>
     common_block a b (extend_right a b m) \<and> snd (snd m) \<le> snd (snd (extend_right a b m))"
proof (induction a b m rule: extend_right.induct)
  case (1 a b besti bestj bestsize)
  show ?case
  proof (cases "besti + bestsize < length a \<and> bestj + bestsize < length b
                 \<and> a ! (besti + bestsize) = b ! (bestj + bestsize)")
    case True
    have "common_block a b (besti, bestj, bestsize + 1)"
      using "1.prems" True by (auto simp: common_block_nth less_Suc_eq)
    from "1.IH"[OF True this] True show ?thesis
      by (simp add: extend_right.simps[of a b besti bestj bestsize])
  next
    case False
    with "1.prems" show ?thesis
      by (auto simp: extend_right.simps[of a b besti bestj bestsize])
  qed
qed

lemma find_longest_match_short:
  assumes "length b < 200"
  shows "common_block a b (find_longest_match a b)"
    and "common_block a b m \<Longrightarrow> snd (snd m) \<le> snd (snd (find_longest_match a b))"
proof -
  from flm_outer_fold[OF assms, of "length a" a] obtain j2len best where
    f: "foldl (flm_outer a b) (Map.empty, 0, 0, 0) [0..<length a] = (j2len, best)"
    and cb: "common_block a b best"
    and bd: "\<forall>i<length a. \<forall>j<length b. common_suffix a b i j \<le> snd (snd best)"
    by auto
  have flm: "find_longest_match a b = extend_right a b (extend_left a b best)"
    by (simp add: find_longest_match_def f)
  from extend_left_block[OF cb] have l: "common_block a b (extend_left a b best)"
    "snd (snd best) \<le> snd (snd (extend_left a b best))" by simp_all
  from extend_right_block[OF l(1)] have r: "common_block a b (find_longest_match a b)"
    "snd (snd (extend_left a b best)) \<le> snd (snd (find_longest_match a b))"
    by (simp_all add: flm)
  show "common_block a b (find_longest_match a b)" by (rule r(1))
  show "snd (snd m) \<le> snd (snd (find_longest_match a b))" if m: "common_block a b m"
  proof -
    obtain i j k where mm: "m = (i, j, k)" by (cases m) auto
    show ?thesis
    proof (cases "k = 0")
      case True
      then show ?thesis by (simp add: mm)
    next
      case False
      then have k: "0 < k" by simp
      from common_block_bound[OF m[unfolded mm] k] bd
      have "k \<le> snd (snd best)" by (meson order_trans)
      with l(2) r(2) show ?thesis by (simp add: mm)
    qed
  qed
qed

lemma length_lower: "length (lower s) = length s"
  by (simp add: lower_def)

lemma common_block_sublist:
  assumes "common_block a b (i, j, k)"
  shows "sublist (take k (drop i a)) a" and "sublist (take k (drop i a)) b"
    and "length (take k (drop i a)) = k"
proof -
  have "a = take i a @ take k (drop i a) @ drop k (drop i a)"
    by (simp only: append_take_drop_id)
  then show "sublist (take k (drop i a)) a" unfolding sublist_def by blast
  have "b = take j b @ take k (drop j b) @ drop k (drop j b)"
    by (simp only: append_take_drop_id)
  then have "sublist (take k (drop j b)) b" unfolding sublist_def by blast
  with assms show "sublist (take k (drop i a)) b" by (simp add: common_block_def)
  from assms show "length (take k (drop i a)) = k" by (auto simp: common_block_def)
qed

lemma sublist_common_block:
  assumes "sublist d a" and "sublist d b"
  shows "\<exists>i j. common_block a b (i, j, length d)"
proof -
  from assms obtain ps ss qs ts where "a = ps @ d @ ss" "b = qs @ d @ ts"
    unfolding sublist_def by blast
  then have "common_block a b (length ps, length qs, length d)"
    by (simp add: common_block_def)
  then show ?thesis by blast
qed

lemma find_common_sequence_short_names:
  assumes "length (fst (splitext str2)) < 200"
  shows "\<exists>c. sublist c (lower (fst (splitext str1))) \<and> sublist c (lower (fst (splitext str2)))
           \<and> (\<forall>d. sublist d (lower (fst (splitext str1))) \<and> sublist d (lower (fst (splitext str2)))
                  \<longrightarrow> length d \<le> length c)
           \<and> find_common_sequence str1 str2
               = (if 4 \<le> length c \<and> re_search_alnum4 c then Some c else None)"
proof -
  define name1 where "name1 = lower (fst (splitext str1))"
  define name2 where "name2 = lower (fst (splitext str2))"
  have short: "length name2 < 200" using assms by (simp add: name2_def length_lower)
  obtain i j k where m: "find_longest_match name1 name2 = (i, j, k)"
    by (cases "find_longest_match name1 name2") auto
  define c where "c = take k (drop i name1)"
  from find_longest_match_short(1)[OF short, of name1] m
  have cb: "common_block name1 name2 (i, j, k)" by simp
  note sub = common_block_sublist[OF cb, folded c_def]
  have longest: "length d \<le> length c" if "sublist d name1" "sublist d name2" for d
  proof -
    from sublist_common_block[OF that] obtain i' j' where
      "common_block name1 name2 (i', j', length d)" by blast
    from find_longest_match_short(2)[OF short this] m sub(3) show ?thesis by simp
  qed
  have "find_common_sequence str1 str2 = (if 4 \<le> length c \<and> re_search_alnum4 c then Some c else None)"
    using m sub(3)
    by (simp add: find_common_sequence_def Let_def name1_def[symmetric] name2_def[symmetric] c_def)
  with sub(1,2) longest show ?thesis
    unfolding name1_def name2_def by blast
qed

lemma find_common_sequence_examples:
  "find_common_sequence ''vacation_trip_01.jpg'' ''vacation_trip_02.png'' = Some ''vacation_trip_0''"
  "find_common_sequence ''a.jpg'' ''b.jpg'' = None"
  "find_common_sequence ''Report_V1.txt'' ''report_v2.TXT'' = Some ''report_v''"
  by code_simp+

section \<open>The similarity check on long names\<close>

lemma rfind_None: "c \<notin> set xs \<Longrightarrow> rfind c xs = None"
  by (induction xs) auto

lemma splitext_no_dot: "CHR ''.'' \<notin> set p \<Longrightarrow> splitext p = (p, [])"
  by (simp add: splitext_def rfind_None)

lemma lower_replicate_a: "lower (replicate n (CHR ''a'')) = replicate n (CHR ''a'')"
  by (simp add: lower_def lower_char_def)

lemma remdups_replicate_single: "remdups (replicate n c) = (if n = 0 then [] else [c])"
  by (induction n) auto

lemma bpopular_replicate: "200 \<le> n \<Longrightarrow> bpopular (replicate n c) = [c]"
  by (simp add: bpopular_def remdups_replicate_single)

lemma b2j_popular: "c \<in> set (bpopular b) \<Longrightarrow> b2j b c = []"
  by (simp add: b2j_def)

lemma b2j_absent: "c \<notin> set b \<Longrightarrow> b2j b c = []"
  by (auto simp: b2j_def filter_empty_conv)

lemma flm_outer_no_index: "b2j b (a ! i) = [] \<Longrightarrow> flm_outer a b s i = (Map.empty, snd s)"
  by (cases s) (simp add: flm_outer_def)

lemma foldl_flm_outer_no_index:
  "\<forall>i\<in>set js. b2j b (a ! i) = [] \<Longrightarrow> snd (foldl (flm_outer a b) s js) = snd s"
  by (induction js arbitrary: s) (simp_all add: flm_outer_no_index)

lemma find_longest_match_all_purged:
  assumes "\<forall>c\<in>set a. b2j b c = []" and "a = [] \<or> b = [] \<or> hd a \<noteq> hd b"
  shows "find_longest_match a b = (0, 0, 0)"
proof -
  have "\<forall>i\<in>set [0..<length a]. b2j b (a ! i) = []"
    using assms(1) by simp
  then have "snd (foldl (flm_outer a b) (Map.empty, 0, 0, 0) [0..<length a]) = (0, 0, 0)"
    by (simp add: foldl_flm_outer_no_index)
  moreover have "extend_right a b (0, 0, 0) = (0, 0, 0)"
    using assms(2) by (cases a; cases b) (auto simp: extend_right.simps)
  ultimately show ?thesis
    by (simp add: find_longest_match_def extend_left.simps)
qed

lemma sublist_Cons_self: "sublist xs (x # xs)"
  by (metis sublist_Cons_right sublist_order.order_refl)

text \<open>
  Claim C5 (find_common_sequence returns the longest common substring of the two
  lower-cased base names whenever that substring has at least 4 characters and a run
  of 4 letters or digits). The code does not do so for long names. For the names
  \<open>b\<close> followed by 200 times \<open>a\<close>, and 201 times \<open>a\<close> (neither has an
  extension), the string of 200 times \<open>a\<close> is a substring of both base names and
  passes the alphanumeric check, but the second name has at least 200 characters
  and \<open>a\<close> is one of its popular characters, which the library's matcher leaves
  out of its index: it finds no block at all, and \<open>find_common_sequence\<close> returns
  \<open>None\<close>. For a second base name of less than 200 characters the claim holds,
  as \<open>find_common_sequence_short_names\<close> shows.
\<close>

theorem find_common_sequence_long_names:
  "find_common_sequence (CHR ''b'' # replicate 200 (CHR ''a'')) (replicate 201 (CHR ''a'')) = None
   \<and> sublist (replicate 200 (CHR ''a''))
        (lower (fst (splitext (CHR ''b'' # replicate 200 (CHR ''a'')))))
   \<and> sublist (replicate 200 (CHR ''a'')) (lower (fst (splitext (replicate 201 (CHR ''a'')))))
   \<and> re_search_alnum4 (replicate 200 (CHR ''a''))"
proof -
  let ?a = "CHR ''b'' # replicate 200 (CHR ''a'')"
  let ?b = "replicate 201 (CHR ''a'')"
  have sa: "lower (fst (splitext ?a)) = ?a"
    by (simp add: splitext_no_dot lower_def lower_char_def)
  have sb: "lower (fst (splitext ?b)) = ?b"
    by (simp add: splitext_no_dot lower_replicate_a)
  have pop: "bpopular ?b = [CHR ''a'']"
    by (rule bpopular_replicate) simp
  have "\<forall>c\<in>set ?a. b2j ?b c = []"
    using pop by (auto simp: b2j_popular b2j_absent)
  moreover have "hd ?a \<noteq> hd ?b"
    by (simp add: numeral_nat)
  ultimately have flm: "find_longest_match ?a ?b = (0, 0, 0)"
    by (intro find_longest_match_all_purged) auto
  have none: "find_common_sequence ?a ?b = None"
    by (simp add: find_common_sequence_def sa sb flm)
  have s1: "sublist (replicate 200 (CHR ''a'')) ?a"
    by (rule sublist_Cons_self)
  have "?b = CHR ''a'' # replicate 200 (CHR ''a'')"
    by (simp add: numeral_nat)
  then have s2: "sublist (replicate 200 (CHR ''a'')) ?b"
    by (simp add: sublist_Cons_self)
  have "replicate 200 (CHR ''a'') = ''aaaa'' @ replicate 196 (CHR ''a'')"
    by (simp add: numeral_nat)
  then have s3: "re_search_alnum4 (replicate 200 (CHR ''a''))"
    by (simp add: is_alnum_def)
  show ?thesis
    using none s1 s2 s3 unfolding sa sb by simp
qed

section \<open>Failed moves and the move log\<close>

text \<open>
  Claim C4 (a move that fails is a no-op for that file, and in particular appends
  no record to the move log). When the move itself raises, the code has already
  appended the record. A folder whose only file \<open>a.txt\<close> cannot be moved: the
  run ends normally, the file is still directly under the folder, the error is
  logged, and the move log holds a record for a move that never happened.
\<close>

theorem failed_move_is_recorded:
  "run \<lparr>disk = \<lparr>files = [[''a.txt'']], dirs = [], locked = [[''a.txt'']]\<rparr>,
        moved_files = [], media_sort_enabled = False, signals = [], error_log = []\<rparr>
   = Inr \<lparr>disk = \<lparr>files = [[''a.txt'']], dirs = [[''Miscellaneous'']],
                    locked = [[''a.txt'']]\<rparr>,
           moved_files = [([''a.txt''], [''Miscellaneous'', ''a.txt''])],
           media_sort_enabled = False,
           signals = [StatusUpdate Phase1, UpdateProgressRatio 1 1, UpdateProgress 100,
                      FinishedSignal],
           error_log = [ErrorMoving [''a.txt''] [''Miscellaneous'', ''a.txt'']]\<rparr>"
  by code_simp

section \<open>Undo\<close>

text \<open>
  Claim C7 (undo on an empty move log performs no file-system mutation and still
  emits the completion signal). The completion signal is emitted, but the second
  loop of \<open>undo_sorting\<close> removes every empty directory below the folder, whether or
  not sorting created it. A folder that holds no file and one empty subfolder
  \<open>old\<close>: the run finds no files and leaves the move log empty; the undo that
  follows removes \<open>old\<close>.
\<close>

theorem undo_empty_log_removes_folder:
  "run \<lparr>disk = \<lparr>files = [], dirs = [[''old'']], locked = []\<rparr>,
        moved_files = [], media_sort_enabled = False, signals = [], error_log = []\<rparr>
   = Inr \<lparr>disk = \<lparr>files = [], dirs = [[''old'']], locked = []\<rparr>,
           moved_files = [], media_sort_enabled = False,
           signals = [StatusUpdate NoFilesFound, FinishedSignal], error_log = []\<rparr>
   \<and> undo_thread_run
        (Some \<lparr>disk = \<lparr>files = [], dirs = [[''old'']], locked = []\<rparr>,
               moved_files = [], media_sort_enabled = False,
               signals = [StatusUpdate NoFilesFound, FinishedSignal], error_log = []\<rparr>)
     = (Some \<lparr>disk = \<lparr>files = [], dirs = [], locked = []\<rparr>,
               moved_files = [], media_sort_enabled = False,
               signals = [StatusUpdate NoFilesFound, FinishedSignal], error_log = []\<rparr>,
        [FinishedSignal])"
  by code_simp

lemma restore_moved_files: "moved_files (restore e r) = moved_files e"
  by (cases r) (auto simp: restore_def log_error_def split: option.splits)

lemma foldl_restore_moved_files: "moved_files (foldl restore e rs) = moved_files e"
  by (induction rs arbitrary: e) (simp_all add: restore_moved_files)

text \<open>
  Claim C8, as stated (undo consumes the move log destructively: the records it
  replayed have been removed from the log afterwards), fails: after a run that moved
  \<open>a.txt\<close> into \<open>Miscellaneous\<close>, the undo moves the file back and removes the
  folder, and the move log still holds the record.
\<close>

theorem undo_sorting_log_counterexample:
  "run \<lparr>disk = \<lparr>files = [[''a.txt'']], dirs = [], locked = []\<rparr>,
        moved_files = [], media_sort_enabled = False, signals = [], error_log = []\<rparr>
   = Inr \<lparr>disk = \<lparr>files = [[''Miscellaneous'', ''a.txt'']], dirs = [[''Miscellaneous'']],
                    locked = []\<rparr>,
           moved_files = [([''a.txt''], [''Miscellaneous'', ''a.txt''])],
           media_sort_enabled = False,
           signals = [StatusUpdate Phase1, UpdateProgressRatio 1 1, UpdateProgress 100,
                      FinishedSignal],
           error_log = []\<rparr>
   \<and> undo_sorting
        \<lparr>disk = \<lparr>files = [[''Miscellaneous'', ''a.txt'']], dirs = [[''Miscellaneous'']],
                 locked = []\<rparr>,
         moved_files = [([''a.txt''], [''Miscellaneous'', ''a.txt''])],
         media_sort_enabled = False,
         signals = [StatusUpdate Phase1, UpdateProgressRatio 1 1, UpdateProgress 100,
                    FinishedSignal],
         error_log = []\<rparr>
     = \<lparr>disk = \<lparr>files = [[''a.txt'']], dirs = [], locked = []\<rparr>,
         moved_files = [([''a.txt''], [''Miscellaneous'', ''a.txt''])],
         media_sort_enabled = False,
         signals = [StatusUpdate Phase1, UpdateProgressRatio 1 1, UpdateProgress 100,
                    FinishedSignal],
         error_log = []\<rparr>"
  by code_simp

lemma restore_ignores_log:
  "restore (e\<lparr>moved_files := m\<rparr>) r = (restore e r)\<lparr>moved_files := m\<rparr>"
  by (cases r) (auto simp: restore_def log_error_def split: option.splits)

lemma foldl_restore_ignores_log:
  "foldl restore (e\<lparr>moved_files := m\<rparr>) rs = (foldl restore e rs)\<lparr>moved_files := m\<rparr>"
  by (induction rs arbitrary: e) (simp_all add: restore_ignores_log)

text \<open>
  Claim C8, amended: undo reads the move log in reverse order and leaves it unchanged.
  After an undo the engine's move log is the list it was before. The last record is
  restored first: undoing a log that ends with the record \<open>r\<close> is restoring \<open>r\<close>
  and then undoing the log without \<open>r\<close>. The order matters: for the log of
  \<open>chain_engine\<close> the undo brings \<open>pic.jpg\<close> back under the folder, whereas
  restoring the records first to last would leave it in \<open>trip\<close>.
\<close>

theorem undo_sorting_keeps_log:
  "moved_files (undo_sorting e) = moved_files e
   \<and> (\<forall>rs r. moved_files e = rs @ [r] \<longrightarrow>
         undo_sorting e
         = (undo_sorting ((restore e r)\<lparr>moved_files := rs\<rparr>))\<lparr>moved_files := rs @ [r]\<rparr>)"
proof (intro conjI allI impI)
  show "moved_files (undo_sorting e) = moved_files e"
    by (simp add: undo_sorting_def Let_def foldl_restore_moved_files split: option.splits)
next
  fix rs r
  assume log: "moved_files e = rs @ [r]"
  define e1 where "e1 = foldl restore (restore e r) (rev rs)"
  have m1: "moved_files e1 = rs @ [r]"
    by (simp add: e1_def foldl_restore_moved_files restore_moved_files log)
  have l: "foldl restore e (rev (moved_files e)) = e1"
    by (simp add: log e1_def)
  have r: "foldl restore ((restore e r)\<lparr>moved_files := rs\<rparr>) (rev rs) = e1\<lparr>moved_files := rs\<rparr>"
    by (simp add: e1_def foldl_restore_ignores_log)
  have eq: "x\<lparr>moved_files := rs, moved_files := moved_files x\<rparr> = x" for x :: engine
    by simp
  show "undo_sorting e
        = (undo_sorting ((restore e r)\<lparr>moved_files := rs\<rparr>))\<lparr>moved_files := rs @ [r]\<rparr>"
    unfolding undo_sorting_def Let_def l
    using m1 by (simp add: r split: option.splits)
qed

theorem undo_sorting_keeps_log_witness:
  "moved_files (undo_sorting chain_engine) = moved_files chain_engine
   \<and> undo_sorting chain_engine
     = (undo_sorting
          ((restore chain_engine ([''trip'', ''pic.jpg''], [''trip'', ''Images'', ''pic.jpg'']))
             \<lparr>moved_files := [([''pic.jpg''], [''trip'', ''pic.jpg''])]\<rparr>))
       \<lparr>moved_files := [([''pic.jpg''], [''trip'', ''pic.jpg''])]
                         @ [([''trip'', ''pic.jpg''], [''trip'', ''Images'', ''pic.jpg''])]\<rparr>
   \<and> disk (undo_sorting chain_engine) = \<lparr>files = [[''pic.jpg'']], dirs = [], locked = []\<rparr>
   \<and> disk (foldl restore chain_engine (moved_files chain_engine))
     = \<lparr>files = [[''trip'', ''pic.jpg'']], dirs = [[''trip''], [''trip'', ''Images'']], locked = []\<rparr>"
proof -
  have log: "moved_files chain_engine
      = [([''pic.jpg''], [''trip'', ''pic.jpg''])]
        @ [([''trip'', ''pic.jpg''], [''trip'', ''Images'', ''pic.jpg''])]"
    by (simp add: chain_engine_def)
  have d: "disk (undo_sorting chain_engine) = \<lparr>files = [[''pic.jpg'']], dirs = [], locked = []\<rparr>"
    by code_simp
  have f: "disk (foldl restore chain_engine (moved_files chain_engine))
     = \<lparr>files = [[''trip'', ''pic.jpg'']], dirs = [[''trip''], [''trip'', ''Images'']], locked = []\<rparr>"
    by code_simp
  from undo_sorting_keeps_log[of chain_engine] log d f show ?thesis by blast
qed

section \<open>Conflict names\<close>



lemma shutil_move_file:
  assumes "isfile fs src" "src \<notin> set (locked fs)" "\<not> isdir fs dst" "isdir fs (butlast dst)"
  shows "shutil_move src dst fs =
           Some (fs\<lparr>files := filter (\<lambda>p. p \<noteq> src \<and> p \<noteq> dst) (files fs) @ [dst]\<rparr>)"
  using assms by (simp add: shutil_move_def)





section \<open>The media pass\<close>

lemma appends_refl: "appends P e e"
  by (simp add: appends_def)

lemma appends_trans: "appends P e e' \<Longrightarrow> appends P e' e'' \<Longrightarrow> appends P e e''"
  by (auto simp: appends_def)

lemma appends_cong: "moved_files a = moved_files b \<Longrightarrow> moved_files a' = moved_files b'
    \<Longrightarrow> appends P a a' = appends P b b'"
  by (simp add: appends_def)

lemma shutil_move_keeps_root:
  assumes "shutil_move src dst fs = Some fs'" and "2 \<le> length dst" and "2 \<le> length src"
  shows "root_names fs' = root_names fs"
proof -
  define real_dst where "real_dst = (if isdir fs dst then dst @ [last src] else dst)"
  have len: "2 \<le> length real_dst" using assms(2) by (simp add: real_dst_def)
  show ?thesis
  proof (cases "isfile fs src")
    case True
    with assms(1) have "fs' = fs\<lparr>files := filter (\<lambda>p. p \<noteq> src \<and> p \<noteq> real_dst) (files fs) @ [real_dst]\<rparr>"
      by (auto simp: shutil_move_def real_dst_def Let_def split: if_splits)
    with len assms(3) show ?thesis by (auto simp: root_names_def)
  next
    case False
    with assms(1) have fs': "files fs' = map (rebase src real_dst) (files fs)"
      by (auto simp: shutil_move_def real_dst_def Let_def split: if_splits)
    have np: "\<not> prefix src [f]" for f
    proof
      assume "prefix src [f]"
      then have "length src \<le> length [f]" by (rule prefix_length_le)
      with assms(3) show False by simp
    qed
    show ?thesis
    proof (rule equalityI)
      show "root_names fs' \<subseteq> root_names fs"
        by (rule shutil_move_root_names[OF assms(1,2)])
      show "root_names fs \<subseteq> root_names fs'"
      proof
        fix f assume "f \<in> root_names fs"
        then have "[f] \<in> set (files fs)" by (simp add: root_names_def)
        then have "rebase src real_dst [f] \<in> set (files fs')" by (simp add: fs')
        then show "f \<in> root_names fs'" using np by (simp add: rebase_def root_names_def)
      qed
    qed
  qed
qed

lemma mover_step:
  assumes "dst \<noteq> []"
  shows "(\<exists>fd. butlast fd = butlast dst \<and> length fd = length dst
            \<and> moved_files (snd (move_file_handling_conflicts src dst e)) = moved_files e @ [(src, fd)])
         \<or> moved_files (snd (move_file_handling_conflicts src dst e)) = moved_files e"
proof (cases "final_destination (disk e) dst")
  case None
  then show ?thesis by (simp add: move_file_handling_conflicts_eq emit_def)
next
  case (Some fd)
  have "moved_files (snd (perform_move src fd e)) = moved_files e @ [(src, fd)]"
    by (simp add: perform_move_def log_error_def Let_def split: option.splits)
  with Some final_destination_shape[OF Some assms] show ?thesis
    by (auto simp: move_file_handling_conflicts_eq)
qed

lemma mover_keeps_root:
  assumes "2 \<le> length dst" and "2 \<le> length src"
  shows "root_names (disk (snd (move_file_handling_conflicts src dst e))) = root_names (disk e)"
proof (cases "final_destination (disk e) dst")
  case None
  then show ?thesis by (simp add: move_file_handling_conflicts_eq emit_def)
next
  case (Some fd)
  from assms(1) have "dst \<noteq> []" by auto
  from final_destination_shape(1)[OF Some this] assms(1) have "2 \<le> length fd" by simp
  then have "root_names (disk (snd (perform_move src fd e))) = root_names (disk e)"
    using assms(2)
    by (auto simp: perform_move_def log_error_def Let_def split: option.splits
             dest: shutil_move_keeps_root)
  with Some show ?thesis by (simp add: move_file_handling_conflicts_eq)
qed

lemma move_media_file_props:
  "root_names (disk (move_media_file [sub] kind e f)) = root_names (disk e)"
  "appends (\<lambda>r. fst r = [sub, f] \<and> butlast (snd r) = [sub, kind]) e (move_media_file [sub] kind e f)"
proof -
  show "root_names (disk (move_media_file [sub] kind e f)) = root_names (disk e)"
    by (simp add: move_media_file_def mover_keeps_root)
  show "appends (\<lambda>r. fst r = [sub, f] \<and> butlast (snd r) = [sub, kind]) e (move_media_file [sub] kind e f)"
    using mover_step[of "[sub, kind, f]" "[sub, f]" e]
    by (auto simp: move_media_file_def appends_def)
qed

lemma appends_mono: "appends P e e' \<Longrightarrow> (\<And>r. P r \<Longrightarrow> Q r) \<Longrightarrow> appends Q e e'"
  by (auto simp: appends_def list_all_iff)

lemma foldl_move_media_file_props:
  "root_names (disk (foldl (move_media_file [sub] kind) e names)) = root_names (disk e)
   \<and> appends (\<lambda>r. fst r \<in> (\<lambda>f. [sub, f]) ` set names \<and> butlast (snd r) = [sub, kind]) e
       (foldl (move_media_file [sub] kind) e names)"
proof (induction names arbitrary: e)
  case Nil
  show ?case by (simp add: appends_refl)
next
  case (Cons f names)
  let ?P = "\<lambda>r. fst r \<in> (\<lambda>f. [sub, f]) ` set (f # names) \<and> butlast (snd r) = [sub, kind]"
  have a: "appends ?P e (move_media_file [sub] kind e f)"
    by (rule appends_mono[OF move_media_file_props(2)]) auto
  have b: "appends ?P (move_media_file [sub] kind e f)
             (foldl (move_media_file [sub] kind) (move_media_file [sub] kind e f) names)"
    by (rule appends_mono[OF conjunct2[OF Cons.IH]]) auto
  show ?case
    using Cons.IH[of "move_media_file [sub] kind e f"] appends_trans[OF a b]
    by (simp add: move_media_file_props(1))
qed

lemma media_step_refl: "media_step fs0 e e"
  by (simp add: media_step_def appends_refl)

lemma media_step_trans: "media_step fs0 e e' \<Longrightarrow> media_step fs0 e' e'' \<Longrightarrow> media_step fs0 e e''"
  by (auto simp: media_step_def intro: appends_trans)

lemma move_media_step:
  assumes "isdir fs0 [sub]" and "sub \<notin> set [''Images'', ''Videos'']"
    and "(kind = ''Images'' \<and> list_all (\<lambda>f. endswith (lower f) image_extensions) names)
         \<or> (kind = ''Videos'' \<and> list_all (\<lambda>f. endswith (lower f) video_extensions) names)"
  shows "case move_media [sub] kind names (e, n) of
           Inl (err, e') \<Rightarrow> media_step fs0 e e'
         | Inr (e', n') \<Rightarrow> media_step fs0 e e'"
proof (cases "names = []")
  case True
  then show ?thesis by (simp add: move_media_def media_step_refl)
next
  case False
  show ?thesis
  proof (cases "makedirs ([sub] @ [kind]) (disk e)")
    case None
    with False show ?thesis by (simp add: move_media_def media_step_refl)
  next
    case (Some fs')
    let ?e1 = "e\<lparr>disk := fs'\<rparr>"
    let ?e2 = "foldl (move_media_file [sub] kind) ?e1 names"
    have r: "root_names (disk ?e2) = root_names (disk e)"
      using foldl_move_media_file_props[of sub kind ?e1 names] makedirs_files[OF Some]
      by (simp add: root_names_def)
    have "appends (\<lambda>r. fst r \<in> (\<lambda>f. [sub, f]) ` set names \<and> butlast (snd r) = [sub, kind]) ?e1 ?e2"
      using foldl_move_media_file_props[of sub kind ?e1 names] by simp
    then have "appends (media_record fs0) ?e1 ?e2"
    proof (rule appends_mono)
      fix r :: "path \<times> path"
      assume "fst r \<in> (\<lambda>f. [sub, f]) ` set names \<and> butlast (snd r) = [sub, kind]"
      then obtain f where "f \<in> set names" "fst r = [sub, f]" "butlast (snd r) = [sub, kind]"
        by auto
      with assms show "media_record fs0 r"
        by (cases r) (auto simp: media_record_def list_all_iff)
    qed
    then have "appends (media_record fs0) e ?e2"
      by (simp add: appends_def)
    with r have "media_step fs0 e ?e2" by (simp add: media_step_def)
    with False Some show ?thesis by (simp add: move_media_def)
  qed
qed

lemma process_subdir_step:
  assumes "isdir fs0 [sub]" and "sub \<notin> set [''Images'', ''Videos'']"
  shows "case process_subdir [sub] (e, ic, vc) of
           Inl (err, e') \<Rightarrow> media_step fs0 e e'
         | Inr (e', ic', vc') \<Rightarrow> media_step fs0 e e'"
proof -
  let ?fl = "filter (\<lambda>f. isfile (disk e) ([sub] @ [f])) (listdir (disk e) [sub])"
  let ?images = "filter (\<lambda>f. endswith (lower f) image_extensions) ?fl"
  let ?videos = "filter (\<lambda>f. endswith (lower f) video_extensions) ?fl"
  have i: "case move_media [sub] ''Images'' ?images (e, ic) of
           Inl (err, e') \<Rightarrow> media_step fs0 e e'
         | Inr (e', n') \<Rightarrow> media_step fs0 e e'"
    by (rule move_media_step[OF assms]) (simp add: list_all_iff)
  show ?thesis
  proof (cases "move_media [sub] ''Images'' ?images (e, ic)")
    case (Inl x)
    with i show ?thesis by (auto simp: process_subdir_def Let_def split: prod.splits)
  next
    case (Inr y)
    obtain e1 ic1 where y: "y = (e1, ic1)" by (cases y)
    with i Inr have s1: "media_step fs0 e e1" by simp
    have v: "case move_media [sub] ''Videos'' ?videos (e1, vc) of
           Inl (err, e') \<Rightarrow> media_step fs0 e1 e'
         | Inr (e', n') \<Rightarrow> media_step fs0 e1 e'"
      by (rule move_media_step[OF assms]) (simp add: list_all_iff)
    show ?thesis
      using Inr y v s1
      by (auto simp: process_subdir_def Let_def split: sum.splits prod.splits
               intro: media_step_trans)
  qed
qed

lemma process_subdirs_step:
  assumes "list_all (\<lambda>p. \<exists>sub. p = [sub] \<and> isdir fs0 [sub] \<and> sub \<notin> set [''Images'', ''Videos'']) subdirs"
  shows "case process_subdirs subdirs (e, ic, vc) of
           Inl (err, e') \<Rightarrow> media_step fs0 e e'
         | Inr (e', ic', vc') \<Rightarrow> media_step fs0 e e'"
  using assms
proof (induction subdirs arbitrary: e ic vc)
  case Nil
  show ?case by (simp add: media_step_refl)
next
  case (Cons p subdirs)
  then obtain sub where p: "p = [sub]" "isdir fs0 [sub]" "sub \<notin> set [''Images'', ''Videos'']"
    by auto
  from Cons.prems have rest: "list_all (\<lambda>p. \<exists>sub. p = [sub] \<and> isdir fs0 [sub] \<and> sub \<notin> set [''Images'', ''Videos'']) subdirs"
    by simp
  note st = process_subdir_step[OF p(2,3), of e ic vc]
  show ?case
  proof (cases "process_subdir [sub] (e, ic, vc)")
    case (Inl x)
    with st p(1) show ?thesis by (auto split: prod.splits)
  next
    case (Inr y)
    obtain e1 ic1 vc1 where y: "y = (e1, ic1, vc1)" by (cases y)
    with st Inr have s1: "media_step fs0 e e1" by simp
    from Cons.IH[OF rest, of e1 ic1 vc1] s1 Inr y p(1) show ?thesis
      by (auto split: sum.splits prod.splits intro: media_step_trans)
  qed
qed

lemma media_subdirs_shape:
  "list_all (\<lambda>p. \<exists>sub. p = [sub] \<and> isdir fs [sub] \<and> sub \<notin> set [''Images'', ''Videos''])
     (media_subdirs fs)"
  by (auto simp: media_subdirs_def list_all_iff)

lemma process_media_files_step: "media_step (disk e) e (final_engine (process_media_files e))"
proof -
  note st = process_subdirs_step[OF media_subdirs_shape, of "disk e" e 0 0]
  show ?thesis
  proof (cases "process_subdirs (media_subdirs (disk e)) (e, 0, 0)")
    case (Inl x)
    with st show ?thesis
      by (auto simp: process_media_files_def final_engine_def split: prod.splits)
  next
    case (Inr y)
    obtain e1 ic1 vc1 where y: "y = (e1, ic1, vc1)" by (cases y)
    with st Inr have "media_step (disk e) e e1" by simp
    then have "media_step (disk e) e (emit (StatusUpdate (SortedMedia ic1 vc1)) e1)"
      by (simp add: media_step_def emit_def appends_def)
    with \<open>media_step (disk e) e e1\<close> Inr y show ?thesis
      by (simp add: process_media_files_def final_engine_def)
  qed
qed

text \<open>
  Claim C9, as stated (the media pass moves files only from within top-level
  subfolders that the grouping phase produced), fails: the pass visits every
  directory directly under the folder. Here \<open>old\<close> exists before the run and the
  grouping phase creates only \<open>Miscellaneous\<close>; the media pass moves
  \<open>old/p.jpg\<close> to \<open>old/Images/p.jpg\<close>.
\<close>

theorem media_pass_counterexample:
  "run \<lparr>disk = \<lparr>files = [[''old'', ''p.jpg''], [''a.txt'']], dirs = [[''old'']], locked = []\<rparr>,
        moved_files = [], media_sort_enabled = True, signals = [], error_log = []\<rparr>
   = Inr \<lparr>disk = \<lparr>files = [[''Miscellaneous'', ''a.txt''], [''old'', ''Images'', ''p.jpg'']],
                    dirs = [[''old''], [''Miscellaneous''], [''old'', ''Images'']], locked = []\<rparr>,
           moved_files = [([''a.txt''], [''Miscellaneous'', ''a.txt'']),
                          ([''old'', ''p.jpg''], [''old'', ''Images'', ''p.jpg''])],
           media_sort_enabled = True,
           signals = [StatusUpdate Phase1, UpdateProgressRatio 1 1, StatusUpdate Phase2,
                      StatusUpdate (SortedMedia 1 0), UpdateProgress 100, FinishedSignal],
           error_log = []\<rparr>
   \<and> isdir \<lparr>files = [[''old'', ''p.jpg''], [''a.txt'']], dirs = [[''old'']], locked = []\<rparr> [''old'']"
  by code_simp

section \<open>Signals of a run\<close>

lemma mover_signals: "prefix (signals e) (signals (snd (move_file_handling_conflicts src dst e)))"
  by (auto simp: move_file_handling_conflicts_eq perform_move_def log_error_def emit_def Let_def
           split: option.splits)

lemma move_and_mark_signals: "prefix (signals (eng l)) (signals (eng (move_and_mark t folder l f)))"
  using mover_signals[of "eng l" "[f]" "folder @ [f]"]
  by (auto simp: move_and_mark_def Let_def emit_def prefix_def)

lemma move_group_file_signals: "prefix (signals (eng l)) (signals (eng (move_group_file t folder l f)))"
  by (simp add: move_group_file_def move_and_mark_signals)

lemma foldl_signals:
  assumes "\<And>l f. prefix (signals (eng l)) (signals (eng (step l f)))"
  shows "prefix (signals (eng l)) (signals (eng (foldl step l fs)))"
proof (induction fs arbitrary: l)
  case Nil
  show ?case by simp
next
  case (Cons f fs)
  show ?case using assms[of l f] Cons.IH[of "step l f"] by (auto intro: prefix_order.trans)
qed

lemma makedirs_with_disk_signals: "signals (eng (with_disk fs l)) = signals (eng l)"
  by (simp add: with_disk_def)

lemma grouping_iteration_signals:
  "case grouping_iteration t l of
     Break l' \<Rightarrow> prefix (signals (eng l)) (signals (eng l'))
   | Continue l' \<Rightarrow> prefix (signals (eng l)) (signals (eng l'))
   | Raise err l' \<Rightarrow> prefix (signals (eng l)) (signals (eng l'))"
proof -
  have a: "prefix (signals (eng l)) (signals (eng (foldl (move_and_mark t folder) (with_disk fs l) xs)))"
    for folder fs xs
    using foldl_signals[of "move_and_mark t folder" "with_disk fs l" xs, OF move_and_mark_signals]
    by (simp add: makedirs_with_disk_signals)
  have b: "prefix (signals (eng l)) (signals (eng (foldl (move_group_file t folder) (with_disk fs l) xs)))"
    for folder fs xs
    using foldl_signals[of "move_group_file t folder" "with_disk fs l" xs, OF move_group_file_signals]
    by (simp add: makedirs_with_disk_signals)
  have c: "prefix (signals (eng l)) (signals (emit s (eng (foldl (move_group_file t folder) (with_disk fs l) xs))))"
    for folder fs xs s
    using b[of folder fs xs] by (auto simp: emit_def prefix_def)
  show ?thesis
    by (auto simp: grouping_iteration_def Let_def a c split: list.splits option.splits)
qed

lemma grouping_loop_signals:
  "case grouping_loop t l of
     Inl (err, l') \<Rightarrow> prefix (signals (eng l)) (signals (eng l'))
   | Inr l' \<Rightarrow> prefix (signals (eng l)) (signals (eng l'))"
proof (induction t l rule: grouping_loop.induct)
  case (1 t l)
  note it = grouping_iteration_signals[where t=t and l=l]
  show ?case
  proof (cases "grouping_iteration t l")
    case (Break l')
    with it show ?thesis by (simp add: grouping_loop.simps[of t l])
  next
    case (Raise err l')
    with it show ?thesis by (simp add: grouping_loop.simps[of t l])
  next
    case (Continue l')
    with it have p: "prefix (signals (eng l)) (signals (eng l'))" by simp
    from "1.IH"[OF Continue] p Continue show ?thesis
      by (auto simp: grouping_loop.simps[of t l] split: sum.splits intro: prefix_order.trans)
  qed
qed

lemma move_media_file_signals: "prefix (signals e) (signals (move_media_file subdir kind e f))"
  by (simp add: move_media_file_def mover_signals)

lemma foldl_engine_signals:
  assumes "\<And>e f. prefix (signals e) (signals (step e f))"
  shows "prefix (signals e) (signals (foldl step e fs))"
proof (induction fs arbitrary: e)
  case Nil
  show ?case by simp
next
  case (Cons f fs)
  show ?case using assms[of e f] Cons.IH[of "step e f"] by (auto intro: prefix_order.trans)
qed

lemma move_media_signals:
  "case move_media subdir kind names (e, n) of
     Inl (err, e') \<Rightarrow> prefix (signals e) (signals e')
   | Inr (e', n') \<Rightarrow> prefix (signals e) (signals e')"
proof -
  have "prefix (signals e) (signals (foldl (move_media_file subdir kind) (e\<lparr>disk := fs'\<rparr>) names))"
    for fs'
    using foldl_engine_signals[of "move_media_file subdir kind" "e\<lparr>disk := fs'\<rparr>" names,
        OF move_media_file_signals]
    by simp
  then show ?thesis
    by (auto simp: move_media_def split: option.splits)
qed

lemma process_subdir_signals:
  "case process_subdir subdir (e, ic, vc) of
     Inl (err, e') \<Rightarrow> prefix (signals e) (signals e')
   | Inr (e', ic', vc') \<Rightarrow> prefix (signals e) (signals e')"
proof -
  let ?fl = "filter (\<lambda>f. isfile (disk e) (subdir @ [f])) (listdir (disk e) subdir)"
  let ?images = "filter (\<lambda>f. endswith (lower f) image_extensions) ?fl"
  let ?videos = "filter (\<lambda>f. endswith (lower f) video_extensions) ?fl"
  note i = move_media_signals[where subdir=subdir and kind="''Images''" and names="?images" and e=e and n=ic]
  show ?thesis
  proof (cases "move_media subdir ''Images'' ?images (e, ic)")
    case (Inl x)
    with i show ?thesis by (auto simp: process_subdir_def Let_def split: prod.splits)
  next
    case (Inr y)
    obtain e1 ic1 where y: "y = (e1, ic1)" by (cases y)
    with i Inr have s1: "prefix (signals e) (signals e1)" by simp
    note v = move_media_signals[where subdir=subdir and kind="''Videos''" and names="?videos" and e=e1 and n=vc]
    show ?thesis
      using Inr y v s1
      by (auto simp: process_subdir_def Let_def split: sum.splits prod.splits
               intro: prefix_order.trans)
  qed
qed

lemma process_subdirs_signals:
  "case process_subdirs subdirs (e, ic, vc) of
     Inl (err, e') \<Rightarrow> prefix (signals e) (signals e')
   | Inr (e', ic', vc') \<Rightarrow> prefix (signals e) (signals e')"
proof (induction subdirs arbitrary: e ic vc)
  case Nil
  show ?case by simp
next
  case (Cons p subdirs)
  note st = process_subdir_signals[where subdir=p and e=e and ic=ic and vc=vc]
  show ?case
  proof (cases "process_subdir p (e, ic, vc)")
    case (Inl x)
    with st show ?thesis by (auto split: prod.splits)
  next
    case (Inr y)
    obtain e1 ic1 vc1 where y: "y = (e1, ic1, vc1)" by (cases y)
    with st Inr have s1: "prefix (signals e) (signals e1)" by simp
    from Cons.IH[where e=e1 and ic=ic1 and vc=vc1] s1 Inr y show ?thesis
      by (auto split: sum.splits prod.splits intro: prefix_order.trans)
  qed
qed

lemma process_media_files_signals:
  "prefix (signals e) (signals (final_engine (process_media_files e)))"
proof -
  note st = process_subdirs_signals[where subdirs="media_subdirs (disk e)" and e=e and ic=0 and vc=0]
  show ?thesis
  proof (cases "process_subdirs (media_subdirs (disk e)) (e, 0, 0)")
    case (Inl x)
    with st show ?thesis
      by (auto simp: process_media_files_def final_engine_def split: prod.splits)
  next
    case (Inr y)
    obtain e1 ic1 vc1 where y: "y = (e1, ic1, vc1)" by (cases y)
    with st Inr have "prefix (signals e) (signals e1)" by simp
    then have "prefix (signals e) (signals (emit (StatusUpdate (SortedMedia ic1 vc1)) e1))"
      by (auto simp: emit_def prefix_def)
    with \<open>prefix (signals e) (signals e1)\<close> Inr y show ?thesis
      by (simp add: process_media_files_def final_engine_def)
  qed
qed

text \<open>
  A folder without files: the run reports that no files were found and emits the
  finished signal, and no progress signal at all.
\<close>

lemma run_empty_folder:
  "run (fresh_engine \<lparr>files = [], dirs = [], locked = []\<rparr> False)
   = Inr \<lparr>disk = \<lparr>files = [], dirs = [], locked = []\<rparr>, moved_files = [],
          media_sort_enabled = False,
          signals = [StatusUpdate NoFilesFound, FinishedSignal], error_log = []\<rparr>
   \<and> UpdateProgress 100 \<notin> set [StatusUpdate NoFilesFound, FinishedSignal]"
  by code_simp

text \<open>
  A run that ends without an exception, whatever conflicts were exhausted and
  whatever moves failed on the way, emits the finished signal last. When the folder
  holds at least one file the signals of the run start with the phase-one status and
  end with the 100 percent progress signal followed by the finished signal; when the
  folder holds no file they are the no-files status and the finished signal.
\<close>

lemma completed_run_signals:
  assumes "run e = Inr e'"
  shows "(get_all_files (disk e) = []
            \<and> signals e' = signals e @ [StatusUpdate NoFilesFound, FinishedSignal])
         \<or> (get_all_files (disk e) \<noteq> []
            \<and> (\<exists>mid. signals e' = signals e @ [StatusUpdate Phase1] @ mid
                                    @ [UpdateProgress 100, FinishedSignal]))"
proof (cases "get_all_files (disk e) = []")
  case True
  with assms show ?thesis by (auto simp: run_def emit_def)
next
  case False
  let ?l0 = "\<lparr>eng = emit (StatusUpdate Phase1) e, processed_files = [], processed_count = 0\<rparr>"
  from assms False obtain l where gp: "grouping_phase e = Inr l"
    by (auto simp: run_def split: sum.splits prod.splits)
  with grouping_loop_signals[where t="length (get_all_files (disk e))" and l="?l0"]
  have p1: "prefix (signals e @ [StatusUpdate Phase1]) (signals (eng l))"
    by (simp add: grouping_phase_def emit_def)
  have "\<exists>e2. prefix (signals (eng l)) (signals e2)
            \<and> e' = emit FinishedSignal (emit (UpdateProgress 100) e2)"
  proof (cases "media_sort_enabled (eng l)")
    case False
    with assms \<open>get_all_files (disk e) \<noteq> []\<close> gp show ?thesis
      by (auto simp: run_def)
  next
    case True
    with assms \<open>get_all_files (disk e) \<noteq> []\<close> gp obtain e2 where
      m: "process_media_files (emit (StatusUpdate Phase2) (eng l)) = Inr e2"
      and e': "e' = emit FinishedSignal (emit (UpdateProgress 100) e2)"
      by (auto simp: run_def split: sum.splits)
    from process_media_files_signals[of "emit (StatusUpdate Phase2) (eng l)"] m
    have "prefix (signals (eng l) @ [StatusUpdate Phase2]) (signals e2)"
      by (simp add: final_engine_def emit_def)
    then have "prefix (signals (eng l)) (signals e2)"
      by (auto simp: prefix_def)
    with e' show ?thesis by blast
  qed
  then obtain e2 where p2: "prefix (signals (eng l)) (signals e2)"
    and e': "e' = emit FinishedSignal (emit (UpdateProgress 100) e2)" by blast
  from p1 p2 obtain mid where "signals e2 = signals e @ [StatusUpdate Phase1] @ mid"
    by (auto simp: prefix_def)
  with e' False show ?thesis by (simp add: emit_def)
qed

text \<open>
  Claim C6 (every run, for every input folder, reaches its end and emits a final 100
  percent progress signal and the finished signal). The run does not reach its end
  when the folder that the grouping phase is about to create has the name of a file:
  \<open>os.makedirs\<close> raises \<open>FileExistsError\<close>, and nothing in \<open>run\<close> catches it.
  For the files \<open>abcd\<close> and \<open>abcd1.txt\<close> the common sequence of the two names
  is \<open>abcd\<close>, the name of the group folder, which is the path of the first file.
  The run ends with the exception after the phase-one status: no file is moved, and
  neither the 100 percent progress signal nor the finished signal is emitted.
\<close>

theorem run_raises_on_name_clash:
  "run (fresh_engine clash_folder False)
   = Inl (FileExistsError [''abcd''],
          \<lparr>disk = \<lparr>files = [[''abcd''], [''abcd1.txt'']], dirs = [], locked = []\<rparr>,
           moved_files = [], media_sort_enabled = False,
           signals = [StatusUpdate Phase1], error_log = []\<rparr>)
   \<and> find_common_sequence ''abcd'' ''abcd1.txt'' = Some ''abcd''
   \<and> isfile clash_folder [''abcd'']
   \<and> FinishedSignal \<notin> set [StatusUpdate Phase1]"
  by code_simp

section \<open>The invariant of the grouping phase\<close>

lemma mover_outcome:
  assumes "isfile (disk e) src" and "isdir (disk e) (butlast dst)" and "dst \<noteq> []"
  shows "(final_destination (disk e) dst = None
           \<and> snd (move_file_handling_conflicts src dst e) = emit (StatusUpdate (TooManyConflicts dst)) e)
       \<or> (\<exists>fd. final_destination (disk e) dst = Some fd \<and> src \<in> set (locked (disk e))
             \<and> snd (move_file_handling_conflicts src dst e)
                 = log_error (ErrorMoving src fd) (e\<lparr>moved_files := moved_files e @ [(src, fd)]\<rparr>))
       \<or> (\<exists>fd. final_destination (disk e) dst = Some fd \<and> src \<notin> set (locked (disk e))
             \<and> snd (move_file_handling_conflicts src dst e)
                 = e\<lparr>moved_files := moved_files e @ [(src, fd)],
                     disk := (disk e)\<lparr>files := filter (\<lambda>p. p \<noteq> src \<and> p \<noteq> fd) (files (disk e)) @ [fd]\<rparr>\<rparr>)"
proof (cases "final_destination (disk e) dst")
  case None
  then show ?thesis by (simp add: move_file_handling_conflicts_eq)
next
  case (Some fd)
  have nd: "\<not> isdir (disk e) fd"
    using final_destination_Some(1)[OF Some] by (simp add: path_exists_def)
  have bl: "isdir (disk e) (butlast fd)"
    using final_destination_shape(2)[OF Some assms(3)] assms(2) by simp
  show ?thesis
  proof (cases "src \<in> set (locked (disk e))")
    case True
    then have "shutil_move src fd (disk e) = None" by (simp add: shutil_move_def Let_def)
    with Some True show ?thesis
      by (simp add: move_file_handling_conflicts_eq perform_move_def)
  next
    case False
    from shutil_move_file[OF assms(1) False nd bl] Some False show ?thesis
      by (simp add: move_file_handling_conflicts_eq perform_move_def)
  qed
qed

lemma root_names_after_move:
  assumes "2 \<le> length fd"
  shows "root_names (fs\<lparr>files := filter (\<lambda>p. p \<noteq> [f] \<and> p \<noteq> fd) (files fs) @ [fd]\<rparr>)
         = root_names fs - {f}"
  using assms by (auto simp: root_names_def)

lemma grouping_failures_simps:
  "grouping_failures (emit (UpdateProgressRatio a b) e) = grouping_failures e"
  "grouping_failures (emit (StatusUpdate (TooManyConflicts [g, f])) e) = grouping_failures e @ [f]"
  "grouping_failures (log_error (ErrorMoving [f] fd) e)
     = concat (map failure_of_log (error_log e)) @ [f] @ concat (map failure_of_signal (signals e))"
  "grouping_failures (e\<lparr>moved_files := m\<rparr>) = grouping_failures e"
  "grouping_failures (e\<lparr>disk := d\<rparr>) = grouping_failures e"
  by (simp_all add: grouping_failures_def emit_def log_error_def)

lemma exhausted_simps:
  "exhausted (emit s e) f' = (exhausted e f' \<or> (\<exists>g. s = StatusUpdate (TooManyConflicts [g, f'])))"
  "exhausted (log_error x e) f' = exhausted e f'"
  "exhausted (e\<lparr>moved_files := m\<rparr>) f' = exhausted e f'"
  "exhausted (e\<lparr>disk := d\<rparr>) f' = exhausted e f'"
  by (auto simp: exhausted_def emit_def log_error_def)

lemma move_and_mark_inv:
  assumes inv: "grouping_inv N0 l"
    and f: "f \<in> N0" "f \<notin> set (processed_files l)"
    and dir: "isdir (disk (eng l)) [g]"
  shows "grouping_inv N0 (move_and_mark t [g] l f)"
proof -
  let ?e = "eng l"
  let ?fs = "disk ?e"
  let ?P = "set (processed_files l)"
  from inv have wf: "distinct (files ?fs)" "set (files ?fs) \<inter> set (dirs ?fs) = {}"
    and rn: "root_names ?fs \<subseteq> N0" and pn: "?P \<subseteq> N0" and dp: "distinct (processed_files l)"
    and pc: "processed_count l = length (processed_files l)"
    and un: "N0 - ?P \<subseteq> root_names ?fs"
    and lg: "fst ` set (moved_files ?e) \<subseteq> (\<lambda>f. [f]) ` ?P"
    and dl: "distinct (map fst (moved_files ?e))"
    and mv: "\<forall>r\<in>set (moved_files ?e). fst r \<in> set (files ?fs) \<longrightarrow> fst r \<in> set (locked ?fs)"
    and rec: "\<forall>f\<in>?P. [f] \<in> fst ` set (moved_files ?e) \<or> (f \<in> root_names ?fs \<and> exhausted ?e f)"
    and df: "distinct (grouping_failures ?e)"
    and sf: "set (grouping_failures ?e) \<subseteq> ?P \<inter> root_names ?fs"
    by (simp_all add: grouping_inv_def wf_disk_def)
  from f un have fr: "f \<in> root_names ?fs" by auto
  then have isf: "isfile ?fs [f]" by (simp add: root_names_def isfile_def)
  have nl: "[f] \<notin> fst ` set (moved_files ?e)" using lg f(2) by auto
  have nf: "f \<notin> set (grouping_failures ?e)" using sf f(2) by auto
  let ?e' = "snd (move_file_handling_conflicts [f] [g, f] ?e)"
  let ?l' = "move_and_mark t [g] l f"
  have l': "eng ?l' = emit (UpdateProgressRatio (processed_count l + 1) t) ?e'"
    "processed_files ?l' = processed_files l @ [f]" "processed_count ?l' = processed_count l + 1"
    using f(2) by (simp_all add: move_and_mark_def Let_def set_add_def)
  from mover_outcome[OF isf, of "[g, f]"] dir
  consider
    (A) "?e' = emit (StatusUpdate (TooManyConflicts [g, f])) ?e"
  | (B) fd where "final_destination ?fs [g, f] = Some fd" "[f] \<in> set (locked ?fs)"
      "?e' = log_error (ErrorMoving [f] fd) (?e\<lparr>moved_files := moved_files ?e @ [([f], fd)]\<rparr>)"
  | (C) fd where "final_destination ?fs [g, f] = Some fd"
      "?e' = ?e\<lparr>moved_files := moved_files ?e @ [([f], fd)],
                disk := ?fs\<lparr>files := filter (\<lambda>p. p \<noteq> [f] \<and> p \<noteq> fd) (files ?fs) @ [fd]\<rparr>\<rparr>"
    by auto
  then show ?thesis
  proof cases
    case A
    have e1: "disk (eng ?l') = ?fs" "moved_files (eng ?l') = moved_files ?e"
      by (simp_all add: l' A emit_def)
    have gf: "grouping_failures (eng ?l') = grouping_failures ?e @ [f]"
      by (simp add: l' A grouping_failures_simps)
    have ex: "exhausted (eng ?l') f' = (exhausted ?e f' \<or> f' = f)" for f'
      by (auto simp: l' A exhausted_simps)
    show ?thesis
      unfolding grouping_inv_def wf_disk_def e1 gf ex l'(2,3)
      using wf rn pn dp pc un lg dl mv rec df sf f fr nf by auto
  next
    case B
    have e1: "disk (eng ?l') = ?fs" "moved_files (eng ?l') = moved_files ?e @ [([f], fd)]"
      by (simp_all add: l' B emit_def log_error_def)
    define X where "X = concat (map failure_of_log (error_log ?e))"
    define Y where "Y = concat (map failure_of_signal (signals ?e))"
    have g0: "grouping_failures ?e = X @ Y"
      by (simp add: grouping_failures_def X_def Y_def)
    have g1: "grouping_failures (eng ?l') = X @ [f] @ Y"
      by (simp add: l' B grouping_failures_simps X_def Y_def)
    have gf: "set (grouping_failures (eng ?l')) = insert f (set (grouping_failures ?e))"
      and gd: "distinct (grouping_failures (eng ?l'))"
      using df nf unfolding g0 g1 by auto
    have ex: "exhausted (eng ?l') f' = exhausted ?e f'" for f'
      by (auto simp: l' B exhausted_simps)
    show ?thesis
      unfolding grouping_inv_def wf_disk_def e1 gf ex l'(2,3)
      using wf rn pn dp pc un lg dl mv rec sf f fr nl gd B(2) by auto
  next
    case C
    have len: "length fd = 2" and ne: "\<not> path_exists ?fs fd"
      using final_destination_shape(1)[OF C(1)] final_destination_Some(1)[OF C(1)] by simp_all
    let ?fs' = "?fs\<lparr>files := filter (\<lambda>p. p \<noteq> [f] \<and> p \<noteq> fd) (files ?fs) @ [fd]\<rparr>"
    have e1: "disk (eng ?l') = ?fs'" "moved_files (eng ?l') = moved_files ?e @ [([f], fd)]"
      by (simp_all add: l' C emit_def)
    have rn': "root_names ?fs' = root_names ?fs - {f}"
      by (rule root_names_after_move) (simp add: len)
    have wf': "distinct (files ?fs')" "set (files ?fs') \<inter> set (dirs ?fs') = {}"
      using wf ne by (auto simp: path_exists_def isdir_def)
    have gf: "grouping_failures (eng ?l') = grouping_failures ?e"
      by (simp add: l' C grouping_failures_simps)
    have ex: "exhausted (eng ?l') f' = exhausted ?e f'" for f'
      by (auto simp: l' C exhausted_simps)
    have mv': "\<forall>r\<in>set (moved_files ?e @ [([f], fd)]).
                 fst r \<in> set (files ?fs') \<longrightarrow> fst r \<in> set (locked ?fs')"
      using mv lg len by auto
    show ?thesis
      unfolding grouping_inv_def wf_disk_def e1 gf ex l'(2,3) rn'
      using wf' rn pn dp pc un lg dl mv' rec df sf f fr nl nf by auto
  qed
qed

lemma makedirs_dirs:
  "makedirs p fs = Some fs' \<Longrightarrow>
     isdir fs' p \<and> set (dirs fs) \<subseteq> set (dirs fs')
     \<and> set (dirs fs') - set (dirs fs) \<subseteq> - set (files fs)"
proof (induction p fs arbitrary: fs' rule: makedirs.induct)
  case (1 p fs)
  show ?case
  proof (cases "isdir fs p")
    case True
    with "1.prems" show ?thesis by (simp add: makedirs.simps)
  next
    case False
    with "1.prems" have nf: "\<not> isfile fs p" by (auto simp: makedirs.simps[of p] split: if_splits)
    from False nf "1.prems" obtain fs1 where m: "makedirs (butlast p) fs = Some fs1"
      and fs': "fs' = fs1\<lparr>dirs := dirs fs1 @ [p]\<rparr>"
      by (auto simp: makedirs.simps[of p] split: option.splits)
    from "1.IH"[OF False nf m] fs' nf show ?thesis by (auto simp: isdir_def isfile_def)
  qed
qed

lemma makedirs_wf: "makedirs p fs = Some fs' \<Longrightarrow> wf_disk fs \<Longrightarrow> wf_disk fs'"
  using makedirs_files[of p fs fs'] makedirs_dirs[of p fs fs']
  by (auto simp: wf_disk_def)

lemma with_disk_inv:
  assumes "grouping_inv N0 l" and "makedirs p (disk (eng l)) = Some fs'"
  shows "grouping_inv N0 (with_disk fs' l)" and "isdir (disk (eng (with_disk fs' l))) p"
proof -
  have rn: "root_names fs' = root_names (disk (eng l))"
    using makedirs_files[OF assms(2)] by (simp add: root_names_def)
  have gf: "grouping_failures (eng (with_disk fs' l)) = grouping_failures (eng l)"
    by (simp add: with_disk_def grouping_failures_simps)
  have ex: "exhausted (eng (with_disk fs' l)) f = exhausted (eng l) f" for f
    by (simp add: with_disk_def exhausted_simps)
  have e1: "disk (eng (with_disk fs' l)) = fs'"
    "moved_files (eng (with_disk fs' l)) = moved_files (eng l)"
    "processed_files (with_disk fs' l) = processed_files l"
    "processed_count (with_disk fs' l) = processed_count l"
    by (simp_all add: with_disk_def)
  show "grouping_inv N0 (with_disk fs' l)"
    using assms(1) makedirs_wf[OF assms(2)] makedirs_files[OF assms(2)]
    unfolding grouping_inv_def e1 gf ex rn by simp
  show "isdir (disk (eng (with_disk fs' l))) p"
    using makedirs_dirs[OF assms(2)] by (simp add: e1)
qed

lemma move_and_mark_dirs:
  assumes "isfile (disk (eng l)) [f]" and "isdir (disk (eng l)) [g]"
  shows "dirs (disk (eng (move_and_mark t [g] l f))) = dirs (disk (eng l))"
  using mover_outcome[OF assms(1), of "[g, f]"] assms(2)
  by (auto simp: move_and_mark_def Let_def emit_def log_error_def)

lemma inv_unprocessed_isfile:
  "grouping_inv N0 l \<Longrightarrow> f \<in> N0 \<Longrightarrow> f \<notin> set (processed_files l) \<Longrightarrow> isfile (disk (eng l)) [f]"
  by (auto simp: grouping_inv_def root_names_def isfile_def)

lemma move_group_file_inv:
  assumes "grouping_inv N0 l" and "f \<in> N0" and "isdir (disk (eng l)) [g]"
  shows "grouping_inv N0 (move_group_file t [g] l f)
       \<and> isdir (disk (eng (move_group_file t [g] l f))) [g]
       \<and> set (processed_files (move_group_file t [g] l f)) = insert f (set (processed_files l))"
proof (cases "f \<in> set (processed_files l)")
  case True
  with assms show ?thesis by (auto simp: move_group_file_def)
next
  case False
  note isf = inv_unprocessed_isfile[OF assms(1,2) False]
  then have pe: "path_exists (disk (eng l)) [f]" by (simp add: path_exists_def)
  have "move_group_file t [g] l f = move_and_mark t [g] l f"
    using False pe by (simp add: move_group_file_def)
  moreover have "set (processed_files (move_and_mark t [g] l f)) = insert f (set (processed_files l))"
    by (simp add: move_and_mark_def Let_def set_add_def insert_absorb)
  ultimately show ?thesis
    using move_and_mark_inv[OF assms(1,2) False assms(3), of t]
      move_and_mark_dirs[OF isf assms(3), of t] assms(3)
    by (simp add: isdir_def)
qed

lemma foldl_move_group_file_inv:
  assumes "grouping_inv N0 l" and "set fs \<subseteq> N0" and "isdir (disk (eng l)) [g]"
  shows "grouping_inv N0 (foldl (move_group_file t [g]) l fs)"
  using assms
proof (induction fs arbitrary: l)
  case Nil
  then show ?case by simp
next
  case (Cons f fs)
  from Cons.prems have f: "f \<in> N0" and fs: "set fs \<subseteq> N0" by auto
  note st = move_group_file_inv[OF Cons.prems(1) f Cons.prems(3), of t]
  from Cons.IH[OF _ fs, of "move_group_file t [g] l f"] st show ?case by simp
qed

lemma foldl_move_and_mark_inv:
  assumes "grouping_inv N0 l" and "set fs \<subseteq> N0" and "distinct fs"
    and "set fs \<inter> set (processed_files l) = {}" and "isdir (disk (eng l)) [g]"
  shows "grouping_inv N0 (foldl (move_and_mark t [g]) l fs)
       \<and> set (processed_files (foldl (move_and_mark t [g]) l fs)) = set (processed_files l) \<union> set fs"
  using assms
proof (induction fs arbitrary: l)
  case Nil
  then show ?case by simp
next
  case (Cons f fs)
  from Cons.prems have f: "f \<in> N0" "f \<notin> set (processed_files l)"
    and fs: "set fs \<subseteq> N0" "distinct fs" "f \<notin> set fs" by auto
  let ?l1 = "move_and_mark t [g] l f"
  have i1: "grouping_inv N0 ?l1"
    by (rule move_and_mark_inv[OF Cons.prems(1) f Cons.prems(5)])
  have p1: "set (processed_files ?l1) = insert f (set (processed_files l))"
    by (simp add: move_and_mark_def Let_def set_add_def insert_absorb)
  have d1: "isdir (disk (eng ?l1)) [g]"
    using move_and_mark_dirs[OF inv_unprocessed_isfile[OF Cons.prems(1) f] Cons.prems(5), of t]
      Cons.prems(5) by (simp add: isdir_def)
  have "set fs \<inter> set (processed_files ?l1) = {}"
    using Cons.prems(4) fs(3) by (auto simp: p1)
  from Cons.IH[OF i1 fs(1,2) this d1] p1 show ?case by auto
qed

lemma distinct_get_all_files:
  assumes "wf_disk fs"
  shows "distinct (get_all_files fs)"
proof -
  let ?top = "\<lambda>p::path. p \<noteq> [] \<and> butlast p = []"
  have inj: "inj_on last {p. ?top p}"
  proof (rule inj_onI)
    fix p q :: path
    assume "p \<in> {p. ?top p}" "q \<in> {p. ?top p}" "last p = last q"
    then show "p = q" by (metis (mono_tags, lifting) append_butlast_last_id mem_Collect_eq)
  qed
  have single: "?top p \<Longrightarrow> [last p] = p" for p :: path
    by (metis append_butlast_last_id append_Nil)
  have a: "filter (\<lambda>f. isfile fs [f]) (map last (filter ?top (dirs fs))) = []"
  proof -
    have "\<not> isfile fs [last p]" if "p \<in> set (dirs fs)" "?top p" for p
      using that assms single[of p] by (auto simp: wf_disk_def isfile_def)
    then show ?thesis by (auto simp: filter_empty_conv)
  qed
  have b: "distinct (map last (filter ?top (files fs)))"
    using assms inj by (auto simp: wf_disk_def distinct_map intro: inj_on_subset)
  show ?thesis
    using a b by (simp add: get_all_files_def listdir_def)
qed

lemma distinct_remaining_files: "wf_disk (disk (eng l)) \<Longrightarrow> distinct (remaining_files l)"
  by (simp add: remaining_files_def distinct_get_all_files)

lemma grouping_iteration_inv:
  assumes "grouping_inv N0 l"
  shows "case grouping_iteration t l of
           Break l' \<Rightarrow> grouping_inv N0 l' \<and> N0 \<subseteq> set (processed_files l')
         | Continue l' \<Rightarrow> grouping_inv N0 l'
         | Raise err l' \<Rightarrow> True"
proof (cases "remaining_files l = []")
  case True
  then have "unprocessed l = {}" using set_remaining_files[of l] by simp
  with assms have "N0 \<subseteq> set (processed_files l)"
    by (auto simp: grouping_inv_def unprocessed_def)
  with True assms show ?thesis by (simp add: grouping_iteration_def)
next
  case False
  have rem: "set (remaining_files l) \<subseteq> N0" "set (remaining_files l) \<inter> set (processed_files l) = {}"
    "N0 - set (processed_files l) \<subseteq> set (remaining_files l)"
    using assms by (auto simp: set_remaining_files unprocessed_def grouping_inv_def)
  have dr: "distinct (remaining_files l)"
    using assms by (simp add: distinct_remaining_files grouping_inv_def)
  show ?thesis
  proof (cases "build_similarity_groups (remaining_files l)")
    case Nil
    show ?thesis
    proof (cases "makedirs [''Miscellaneous''] (disk (eng l))")
      case None
      with False Nil show ?thesis by (simp add: grouping_iteration_def)
    next
      case (Some fs')
      note w = with_disk_inv[OF assms Some]
      have "set (remaining_files l) \<inter> set (processed_files (with_disk fs' l)) = {}"
        using rem(2) by (simp add: with_disk_def)
      from foldl_move_and_mark_inv[OF w(1) rem(1) dr this w(2), of t] rem(3)
      have "grouping_inv N0 (foldl (move_and_mark t [''Miscellaneous'']) (with_disk fs' l) (remaining_files l))
          \<and> N0 \<subseteq> set (processed_files (foldl (move_and_mark t [''Miscellaneous'']) (with_disk fs' l) (remaining_files l)))"
        by (auto simp: with_disk_def)
      with False Nil Some show ?thesis by (simp add: grouping_iteration_def)
    qed
  next
    case (Cons grp rest)
    obtain common_str file_set where grp: "grp = (common_str, file_set)" by (cases grp)
    show ?thesis
    proof (cases "makedirs [folder_name_of common_str] (disk (eng l))")
      case None
      with False Cons grp show ?thesis by (simp add: grouping_iteration_def)
    next
      case (Some fs')
      note w = with_disk_inv[OF assms Some]
      from build_similarity_groups_over[of "remaining_files l"] Cons grp rem(1)
      have fsn: "set file_set \<subseteq> N0" by (auto simp: groups_over_def)
      let ?l' = "foldl (move_group_file t [folder_name_of common_str]) (with_disk fs' l) file_set"
      have i: "grouping_inv N0 ?l'"
        by (rule foldl_move_group_file_inv[OF w(1) fsn w(2)])
      have "grouping_inv N0 (?l'\<lparr>eng := emit (UpdateProgressRatio (processed_count ?l') t) (eng ?l')\<rparr>)"
        using i unfolding grouping_inv_def
        by (simp add: grouping_failures_simps exhausted_simps) (simp add: emit_def)
      with False Cons grp Some show ?thesis by (simp add: grouping_iteration_def Let_def)
    qed
  qed
qed

lemma grouping_loop_inv:
  assumes "grouping_inv N0 l" and "grouping_loop t l = Inr l'"
  shows "grouping_inv N0 l' \<and> N0 \<subseteq> set (processed_files l')"
  using assms
proof (induction t l rule: grouping_loop.induct)
  case (1 t l)
  note it = grouping_iteration_inv[OF "1.prems"(1), of t]
  show ?case
  proof (cases "grouping_iteration t l")
    case (Break l1)
    with it "1.prems"(2) show ?thesis by (simp add: grouping_loop.simps[of t l])
  next
    case (Raise err l1)
    with "1.prems"(2) show ?thesis by (simp add: grouping_loop.simps[of t l])
  next
    case (Continue l1)
    with it have i1: "grouping_inv N0 l1" by simp
    from "1.prems"(2) Continue have "grouping_loop t l1 = Inr l'"
      by (simp add: grouping_loop.simps[of t l])
    from "1.IH"[OF Continue i1 this] show ?thesis .
  qed
qed

lemma grouping_inv_initial:
  assumes "fresh e" and "wf_disk (disk e)"
  shows "grouping_inv (root_names (disk e))
           \<lparr>eng = emit (StatusUpdate Phase1) e, processed_files = [], processed_count = 0\<rparr>"
  using assms
  by (simp add: grouping_inv_def fresh_def emit_def grouping_failures_def)

lemma grouping_phase_inv:
  assumes "fresh e" and "wf_disk (disk e)" and "grouping_phase e = Inr l"
  shows "grouping_inv (root_names (disk e)) l"
    and "set (processed_files l) = root_names (disk e)"
proof -
  from grouping_loop_inv[OF grouping_inv_initial[OF assms(1,2)]] assms(3)
  have a: "grouping_inv (root_names (disk e)) l \<and> root_names (disk e) \<subseteq> set (processed_files l)"
    by (simp add: grouping_phase_def)
  then show "grouping_inv (root_names (disk e)) l" by simp
  with a show "set (processed_files l) = root_names (disk e)"
    by (auto simp: grouping_inv_def)
qed


lemma run_grouping_phase:
  assumes "run e = Inr e'"
  shows "\<exists>l. grouping_phase e = Inr l"
proof (cases "get_all_files (disk e) = []")
  case True
  let ?l0 = "\<lparr>eng = emit (StatusUpdate Phase1) e, processed_files = [], processed_count = 0\<rparr>"
  have "remaining_files ?l0 = []"
    using True by (simp add: remaining_files_def emit_def)
  then have "grouping_iteration 0 ?l0 = Break ?l0"
    by (simp add: grouping_iteration_def)
  then show ?thesis
    using True by (simp add: grouping_phase_def grouping_loop.simps[of 0 ?l0])
next
  case False
  with assms show ?thesis by (auto simp: run_def split: sum.splits prod.splits)
qed

lemma run_after_grouping:
  assumes "run e = Inr e'" and "get_all_files (disk e) \<noteq> []" and "grouping_phase e = Inr l"
  shows "\<exists>new. moved_files e' = moved_files (eng l) @ new
           \<and> list_all (\<lambda>r. length (fst r) = 2) new
           \<and> root_names (disk e') = root_names (disk (eng l))
           \<and> prefix (signals (eng l)) (signals e')"
proof (cases "media_sort_enabled (eng l)")
  case False
  with assms have "e' = emit FinishedSignal (emit (UpdateProgress 100) (eng l))"
    by (auto simp: run_def)
  then show ?thesis by (simp add: emit_def)
next
  case True
  let ?e1 = "emit (StatusUpdate Phase2) (eng l)"
  from True assms obtain e2 where m: "process_media_files ?e1 = Inr e2"
    and e': "e' = emit FinishedSignal (emit (UpdateProgress 100) e2)"
    by (auto simp: run_def split: sum.splits)
  from process_media_files_step[of ?e1] m
  have ms: "media_step (disk ?e1) ?e1 e2" by (simp add: final_engine_def)
  then obtain new where new: "moved_files e2 = moved_files ?e1 @ new"
    "list_all (media_record (disk ?e1)) new"
    by (auto simp: media_step_def appends_def)
  have l2: "list_all (\<lambda>r. length (fst r) = 2) new"
    using new(2) by (auto simp: list_all_iff media_record_def)
  from process_media_files_signals[of ?e1] m
  have "prefix (signals ?e1) (signals e2)" by (simp add: final_engine_def)
  then have "prefix (signals (eng l)) (signals e')"
    by (auto simp: e' emit_def prefix_def)
  moreover have "root_names (disk e') = root_names (disk (eng l))"
    using ms by (simp add: media_step_def e' emit_def)
  moreover have "moved_files e' = moved_files (eng l) @ new"
    using new(1) by (simp add: e' emit_def)
  ultimately show ?thesis using l2 by blast
qed

lemma root_names_isfile: "f \<in> root_names fs \<longleftrightarrow> isfile fs [f]"
  by (simp add: root_names_def isfile_def)










section \<open>Every file is recorded at most once\<close>






lemma report_folder_run:
  "run (fresh_engine report_folder False)
   = Inr \<lparr>disk = \<lparr>files = [[''report_v'', ''report_v1.txt''],
                                  [''report_v'', ''report_v2.txt''],
                                  [''Miscellaneous'', ''invoice.pdf'']],
                         dirs = [[''report_v''], [''Miscellaneous'']], locked = []\<rparr>,
                 moved_files = [([''report_v1.txt''], [''report_v'', ''report_v1.txt'']),
                                ([''report_v2.txt''], [''report_v'', ''report_v2.txt'']),
                                ([''invoice.pdf''], [''Miscellaneous'', ''invoice.pdf''])],
                 media_sort_enabled = False,
                 signals = [StatusUpdate Phase1, UpdateProgressRatio 1 3,
                            UpdateProgressRatio 2 3, UpdateProgressRatio 2 3,
                            UpdateProgressRatio 3 3, UpdateProgress 100, FinishedSignal],
                 error_log = []\<rparr>"
  by code_simp

lemma fresh_fresh_engine: "fresh (fresh_engine fs m)"
  by (simp add: fresh_def fresh_engine_def)




section \<open>Failed moves in the grouping phase\<close>

lemma failure_is_observable:
  "length (grouping_failures (snd (move_file_handling_conflicts [f] [g, f] e)))
     = length (grouping_failures e)
       + (if fst (move_file_handling_conflicts [f] [g, f] e) = None then 1 else 0)
   \<and> set (grouping_failures (snd (move_file_handling_conflicts [f] [g, f] e)))
       \<subseteq> insert f (set (grouping_failures e))"
  by (auto simp: move_file_handling_conflicts_eq perform_move_def grouping_failures_def
        emit_def log_error_def Let_def split: option.splits)

text \<open>
  Claim C10: in the grouping phase a file whose move fails (the conflict names are
  used up, or the move raises) is added to the processed set and counted all the
  same, is not tried again within the run, and is still directly under the folder
  when the run completes. By \<open>failure_is_observable\<close> the list
  \<open>grouping_failures\<close> gains one entry, the file's name, exactly when the mover
  returns \<open>None\<close>. For a run of a fresh engine over a well-formed folder that
  completes: every failed name is in the processed set, which at the end of the
  phase is the set of the folder's files, each counted once; no name failed twice;
  and every failed name is a file directly under the folder at the end of the run.
\<close>

theorem failed_move_marked_once:
  assumes "fresh e" and "wf_disk (disk e)"
    and "grouping_phase e = Inr l" and "run e = Inr e'"
  shows "set (grouping_failures (eng l)) \<subseteq> set (processed_files l)
       \<and> set (processed_files l) = set (get_all_files (disk e))
       \<and> distinct (processed_files l)
       \<and> processed_count l = length (processed_files l)
       \<and> distinct (grouping_failures (eng l))
       \<and> list_all (\<lambda>f. isfile (disk e') [f]) (grouping_failures (eng l))"
proof -
  note inv = grouping_phase_inv[OF assms(1,2,3)]
  from inv(1) have a: "distinct (processed_files l)" "processed_count l = length (processed_files l)"
    "distinct (grouping_failures (eng l))"
    "set (grouping_failures (eng l)) \<subseteq> set (processed_files l) \<inter> root_names (disk (eng l))"
    by (simp_all add: grouping_inv_def)
  have "root_names (disk e') = root_names (disk (eng l))" if "grouping_failures (eng l) \<noteq> []"
  proof -
    from that a(4) inv(2) have "get_all_files (disk e) \<noteq> []"
      by (cases "grouping_failures (eng l)") (auto simp: root_names_get_all_files[symmetric])
    from run_after_grouping[OF assms(4) this assms(3)] show ?thesis by blast
  qed
  then have "list_all (\<lambda>f. isfile (disk e') [f]) (grouping_failures (eng l))"
    using a(4) by (cases "grouping_failures (eng l) = []") (auto simp: list_all_iff root_names_isfile[symmetric])
  with a inv(2) show ?thesis by (simp add: root_names_get_all_files)
qed

lemma stuck_folder_grouping:
  "grouping_phase (fresh_engine stuck_folder False)
   = Inr \<lparr>eng = \<lparr>disk = \<lparr>files = [[''a.txt''], [''Miscellaneous'', ''b.txt'']],
                         dirs = [[''Miscellaneous'']], locked = [[''a.txt'']]\<rparr>,
                 moved_files = [([''a.txt''], [''Miscellaneous'', ''a.txt'']),
                                ([''b.txt''], [''Miscellaneous'', ''b.txt''])],
                 media_sort_enabled = False,
                 signals = [StatusUpdate Phase1, UpdateProgressRatio 1 2,
                            UpdateProgressRatio 2 2],
                 error_log = [ErrorMoving [''a.txt''] [''Miscellaneous'', ''a.txt'']]\<rparr>,
          processed_files = [''a.txt'', ''b.txt''],
          processed_count = 2\<rparr>"
  by code_simp

lemma stuck_folder_run:
  "run (fresh_engine stuck_folder False)
   = Inr \<lparr>disk = \<lparr>files = [[''a.txt''], [''Miscellaneous'', ''b.txt'']],
                         dirs = [[''Miscellaneous'']], locked = [[''a.txt'']]\<rparr>,
                 moved_files = [([''a.txt''], [''Miscellaneous'', ''a.txt'']),
                                ([''b.txt''], [''Miscellaneous'', ''b.txt''])],
                 media_sort_enabled = False,
                 signals = [StatusUpdate Phase1, UpdateProgressRatio 1 2,
                            UpdateProgressRatio 2 2, UpdateProgress 100, FinishedSignal],
                 error_log = [ErrorMoving [''a.txt''] [''Miscellaneous'', ''a.txt'']]\<rparr>"
  by code_simp

lemma wf_stuck_folder: "wf_disk (disk (fresh_engine stuck_folder False))"
  by (simp add: wf_disk_def fresh_engine_def stuck_folder_def)

theorem failed_move_marked_once_witness:
  "\<exists>l e'. grouping_phase (fresh_engine stuck_folder False) = Inr l
      \<and> run (fresh_engine stuck_folder False) = Inr e'
      \<and> grouping_failures (eng l) = [''a.txt'']
      \<and> set (grouping_failures (eng l)) \<subseteq> set (processed_files l)
      \<and> set (processed_files l) = set (get_all_files (disk (fresh_engine stuck_folder False)))
      \<and> distinct (processed_files l)
      \<and> processed_count l = length (processed_files l)
      \<and> distinct (grouping_failures (eng l))
      \<and> list_all (\<lambda>f. isfile (disk e') [f]) (grouping_failures (eng l))"
proof -
  let ?l = "\<lparr>eng = \<lparr>disk = \<lparr>files = [[''a.txt''], [''Miscellaneous'', ''b.txt'']],
                         dirs = [[''Miscellaneous'']], locked = [[''a.txt'']]\<rparr>,
                 moved_files = [([''a.txt''], [''Miscellaneous'', ''a.txt'']),
                                ([''b.txt''], [''Miscellaneous'', ''b.txt''])],
                 media_sort_enabled = False,
                 signals = [StatusUpdate Phase1, UpdateProgressRatio 1 2,
                            UpdateProgressRatio 2 2],
                 error_log = [ErrorMoving [''a.txt''] [''Miscellaneous'', ''a.txt'']]\<rparr>,
          processed_files = [''a.txt'', ''b.txt''],
          processed_count = 2\<rparr>"
  have gf: "grouping_failures (eng ?l) = [''a.txt'']"
    by (simp add: grouping_failures_def)
  from failed_move_marked_once[OF fresh_fresh_engine wf_stuck_folder
      stuck_folder_grouping stuck_folder_run] gf stuck_folder_grouping stuck_folder_run
  show ?thesis by blast
qed

section \<open>Sorting a flat folder, then undoing\<close>

lemma apply_log_append: "apply_log (xs @ ys) F = apply_log ys (apply_log xs F)"
  by (induction xs arbitrary: F) auto

lemma valid_log_append:
  "valid_log (xs @ ys) F = (valid_log xs F \<and> valid_log ys (apply_log xs F))"
  by (induction xs arbitrary: F) auto

lemma makedirs_one:
  assumes "makedirs p fs = Some fs'" and "isdir fs (butlast p)"
  shows "fs' = fs \<or> (fs' = fs\<lparr>dirs := dirs fs @ [p]\<rparr> \<and> \<not> path_exists fs p)"
proof (cases "isdir fs p")
  case True
  with assms(1) show ?thesis by (simp add: makedirs.simps)
next
  case False
  with assms(1) have nf: "\<not> isfile fs p" by (auto simp: makedirs.simps[of p] split: if_splits)
  have "makedirs (butlast p) fs = Some fs" using assms(2) by (simp add: makedirs.simps)
  with False nf assms(1) show ?thesis
    by (auto simp: makedirs.simps[of p] path_exists_def)
qed

lemma sorted_inv_makedirs:
  assumes "sorted_inv F0 e" and "makedirs p (disk e) = Some fs'"
    and "length p = 1 \<or> (length p = 2 \<and> isdir (disk e) [hd p] \<and> last p \<in> set media_names)"
  shows "sorted_inv F0 (e\<lparr>disk := fs'\<rparr>)"
proof -
  have bl: "isdir (disk e) (butlast p)"
  proof -
    from assms(3) consider "length p = 1" | "length p = 2" "isdir (disk e) [hd p]" by auto
    then show ?thesis
    proof cases
      case 1
      then have "butlast p = []" by (cases p) auto
      then show ?thesis by (simp add: isdir_def)
    next
      case 2
      then obtain a b where "p = [a, b]" by (cases p; cases "tl p") auto
      with 2 show ?thesis by simp
    qed
  qed
  from makedirs_one[OF assms(2) bl]
  consider "fs' = disk e" | "fs' = (disk e)\<lparr>dirs := dirs (disk e) @ [p]\<rparr>" "\<not> path_exists (disk e) p"
    by auto
  then show ?thesis
  proof cases
    case 1
    with assms(1) show ?thesis by (simp add: sorted_inv_def)
  next
    case 2
    have d: "isdir (disk e) q \<Longrightarrow> isdir fs' q" for q
      by (auto simp: 2 isdir_def)
    have ok: "dir_ok (disk e) q \<Longrightarrow> dir_ok fs' q" for q
      by (auto simp: 2 dir_ok_def)
    have okp: "dir_ok fs' p"
      using assms(3) by (auto simp: 2 dir_ok_def isdir_def)
    have wf: "wf_disk fs'"
      using assms(1) 2(2) by (auto simp: sorted_inv_def wf_disk_def 2(1) path_exists_def isfile_def)
    have f: "files fs' = files (disk e)" "locked fs' = locked (disk e)" "dirs fs' = dirs (disk e) @ [p]"
      by (simp_all add: 2)
    show ?thesis
      using assms(1) wf okp
      unfolding sorted_inv_def
      by (auto simp: f list_all_iff intro: d ok)
  qed
qed

lemma sorted_inv_mover:
  assumes inv: "sorted_inv F0 e" and isf: "isfile (disk e) src"
    and dir: "isdir (disk e) (butlast dst)" "dst \<noteq> []" and ok: "src_ok F0 src"
  shows "sorted_inv F0 (snd (move_file_handling_conflicts src dst e))"
    and "dirs (disk (snd (move_file_handling_conflicts src dst e))) = dirs (disk e)"
    and "isfile (disk e) p \<Longrightarrow> p \<noteq> src \<Longrightarrow> isfile (disk (snd (move_file_handling_conflicts src dst e))) p"
    and "isfile (disk (snd (move_file_handling_conflicts src dst e))) p
           \<Longrightarrow> isfile (disk e) p \<or> butlast p = butlast dst"
proof -
  let ?e' = "snd (move_file_handling_conflicts src dst e)"
  from inv have nl: "src \<notin> set (locked (disk e))" by (simp add: sorted_inv_def)
  from mover_outcome[OF isf dir] nl
  consider (A) "?e' = emit (StatusUpdate (TooManyConflicts dst)) e"
    | (C) fd where "final_destination (disk e) dst = Some fd"
        "?e' = e\<lparr>moved_files := moved_files e @ [(src, fd)],
                 disk := (disk e)\<lparr>files := filter (\<lambda>p. p \<noteq> src \<and> p \<noteq> fd) (files (disk e)) @ [fd]\<rparr>\<rparr>"
    by auto
  then have "sorted_inv F0 ?e' \<and> dirs (disk ?e') = dirs (disk e)
      \<and> (isfile (disk e) p \<longrightarrow> p \<noteq> src \<longrightarrow> isfile (disk ?e') p)
      \<and> (isfile (disk ?e') p \<longrightarrow> isfile (disk e) p \<or> butlast p = butlast dst)"
  proof cases
    case A
    with inv show ?thesis by (simp add: sorted_inv_def emit_def)
  next
    case C
    let ?fs = "disk e"
    let ?fs' = "?fs\<lparr>files := filter (\<lambda>p. p \<noteq> src \<and> p \<noteq> fd) (files ?fs) @ [fd]\<rparr>"
    have ne: "\<not> path_exists ?fs fd" and bl: "butlast fd = butlast dst"
      using final_destination_Some(1)[OF C(1)] final_destination_shape(2)[OF C(1) dir(2)]
      by simp_all
    have fdn: "fd \<notin> set (files ?fs)" "fd \<notin> set (dirs ?fs)"
      using ne by (auto simp: path_exists_def isfile_def isdir_def)
    have srcf: "src \<in> set (files ?fs)" using isf by (simp add: isfile_def)
    have e1: "disk ?e' = ?fs'" "moved_files ?e' = moved_files e @ [(src, fd)]"
      by (simp_all add: C(2))
    have sf: "set (files ?fs') = insert fd (set (files ?fs) - {src})"
      using fdn by auto
    from inv have wf: "wf_disk ?fs" and k6: "list_all (\<lambda>p. isdir ?fs (butlast p)) (files ?fs)"
      and k4: "list_all (dir_ok ?fs) (dirs ?fs)"
      and k1: "valid_log (moved_files e) F0" "apply_log (moved_files e) F0 = set (files ?fs)"
      and k5: "list_all (\<lambda>r. isdir ?fs (butlast (fst r)) \<and> src_ok F0 (fst r)) (moved_files e)"
      by (simp_all add: sorted_inv_def)
    have wf': "wf_disk ?fs'"
      using wf fdn by (auto simp: wf_disk_def)
    have id: "isdir ?fs' q = isdir ?fs q" for q by (simp add: isdir_def)
    have dk: "dir_ok ?fs' q = dir_ok ?fs q" for q by (simp add: dir_ok_def)
    have k6': "list_all (\<lambda>p. isdir ?fs' (butlast p)) (files ?fs')"
      using k6 dir(1) bl by (auto simp: list_all_iff id)
    have srcd: "isdir ?fs (butlast src)"
      using k6 srcf by (auto simp: list_all_iff)
    have k1a: "valid_log (moved_files e @ [(src, fd)]) F0"
      using k1 srcf fdn by (simp add: valid_log_append)
    have "apply_log (moved_files e @ [(src, fd)]) F0 = insert fd (set (files ?fs) - {src})"
      using k1 by (simp add: apply_log_append)
    then have k1b: "apply_log (moved_files e @ [(src, fd)]) F0 = set (files ?fs')"
      using sf by simp
    note k1' = k1a k1b
    have k5': "list_all (\<lambda>r. isdir ?fs' (butlast (fst r)) \<and> src_ok F0 (fst r)) (moved_files e @ [(src, fd)])"
      using k5 srcd ok by (simp add: id)
    have "sorted_inv F0 ?e'"
      unfolding sorted_inv_def e1
      using wf' inv k6' k4 k1' k5' by (simp add: sorted_inv_def dk[abs_def])
    moreover have "isfile ?fs' p \<longrightarrow> isfile ?fs p \<or> butlast p = butlast dst"
      using bl by (auto simp: isfile_def)
    moreover have "isfile ?fs p \<longrightarrow> p \<noteq> src \<longrightarrow> isfile ?fs' p"
      by (auto simp: isfile_def)
    ultimately show ?thesis by (simp add: e1)
  qed
  then show "sorted_inv F0 ?e'" "dirs (disk ?e') = dirs (disk e)"
    "isfile (disk e) p \<Longrightarrow> p \<noteq> src \<Longrightarrow> isfile (disk ?e') p"
    "isfile (disk ?e') p \<Longrightarrow> isfile (disk e) p \<or> butlast p = butlast dst"
    by blast+
qed

lemma sorted_inv_emit [simp]: "sorted_inv F0 (emit s e) = sorted_inv F0 e"
  by (simp add: sorted_inv_def emit_def)

lemma move_and_mark_sorted:
  assumes "sorted_inv F0 (eng l)" and "isfile (disk (eng l)) [f]" and "isdir (disk (eng l)) [g]"
    and "[f] \<in> F0"
  shows "sorted_inv F0 (eng (move_and_mark t [g] l f))"
proof -
  have "src_ok F0 [f]" using assms(4) by (simp add: src_ok_def)
  from sorted_inv_mover(1)[OF assms(1,2), of "[g, f]"] assms(3) this
  show ?thesis by (simp add: move_and_mark_def Let_def)
qed

lemma move_group_file_sorted:
  assumes "grouping_inv N0 l" and "sorted_inv F0 (eng l)" and "f \<in> N0"
    and "isdir (disk (eng l)) [g]" and "(\<lambda>f. [f]) ` N0 \<subseteq> F0"
  shows "sorted_inv F0 (eng (move_group_file t [g] l f))"
proof (cases "f \<in> set (processed_files l)")
  case True
  with assms(2) show ?thesis by (simp add: move_group_file_def)
next
  case False
  note isf = inv_unprocessed_isfile[OF assms(1,3) False]
  have "[f] \<in> F0" using assms(3,5) by auto
  from move_and_mark_sorted[OF assms(2) isf assms(4) this] assms(2)
  show ?thesis by (simp add: move_group_file_def)
qed

lemma foldl_move_group_file_sorted:
  assumes "grouping_inv N0 l" and "sorted_inv F0 (eng l)" and "set fs \<subseteq> N0"
    and "isdir (disk (eng l)) [g]" and "(\<lambda>f. [f]) ` N0 \<subseteq> F0"
  shows "sorted_inv F0 (eng (foldl (move_group_file t [g]) l fs))"
  using assms(1-4)
proof (induction fs arbitrary: l)
  case Nil
  then show ?case by simp
next
  case (Cons f fs)
  from Cons.prems have f: "f \<in> N0" and fs: "set fs \<subseteq> N0" by auto
  note j = move_group_file_inv[OF Cons.prems(1) f Cons.prems(4), of t]
  note k = move_group_file_sorted[OF Cons.prems(1,2) f Cons.prems(4) assms(5), of t]
  from Cons.IH[OF _ k fs, of ] j show ?case by simp
qed

lemma foldl_move_and_mark_sorted:
  assumes "grouping_inv N0 l" and "sorted_inv F0 (eng l)" and "set fs \<subseteq> N0" and "distinct fs"
    and "set fs \<inter> set (processed_files l) = {}" and "isdir (disk (eng l)) [g]"
    and "(\<lambda>f. [f]) ` N0 \<subseteq> F0"
  shows "sorted_inv F0 (eng (foldl (move_and_mark t [g]) l fs))"
  using assms(1-6)
proof (induction fs arbitrary: l)
  case Nil
  then show ?case by simp
next
  case (Cons f fs)
  from Cons.prems have f: "f \<in> N0" "f \<notin> set (processed_files l)"
    and fs: "set fs \<subseteq> N0" "distinct fs" "f \<notin> set fs" by auto
  let ?l1 = "move_and_mark t [g] l f"
  note isf = inv_unprocessed_isfile[OF Cons.prems(1) f]
  have i1: "grouping_inv N0 ?l1"
    by (rule move_and_mark_inv[OF Cons.prems(1) f Cons.prems(6)])
  have "[f] \<in> F0" using f(1) assms(7) by auto
  then have k1: "sorted_inv F0 (eng ?l1)"
    by (rule move_and_mark_sorted[OF Cons.prems(2) isf Cons.prems(6)])
  have p1: "set (processed_files ?l1) = insert f (set (processed_files l))"
    by (simp add: move_and_mark_def Let_def set_add_def insert_absorb)
  have d1: "isdir (disk (eng ?l1)) [g]"
    using move_and_mark_dirs[OF isf Cons.prems(6), of t] Cons.prems(6) by (simp add: isdir_def)
  have "set fs \<inter> set (processed_files ?l1) = {}"
    using Cons.prems(5) fs(3) by (auto simp: p1)
  from Cons.IH[OF i1 k1 fs(1,2) this d1] show ?case by simp
qed

lemma with_disk_sorted:
  assumes "sorted_inv F0 (eng l)" and "makedirs [g] (disk (eng l)) = Some fs'"
  shows "sorted_inv F0 (eng (with_disk fs' l))"
  using sorted_inv_makedirs[OF assms, simplified] by (simp add: with_disk_def)

lemma grouping_iteration_sorted:
  assumes "grouping_inv N0 l" and "sorted_inv F0 (eng l)" and "(\<lambda>f. [f]) ` N0 \<subseteq> F0"
  shows "case grouping_iteration t l of
           Break l' \<Rightarrow> sorted_inv F0 (eng l')
         | Continue l' \<Rightarrow> sorted_inv F0 (eng l')
         | Raise err l' \<Rightarrow> True"
proof (cases "remaining_files l = []")
  case True
  with assms show ?thesis by (simp add: grouping_iteration_def)
next
  case False
  have rem: "set (remaining_files l) \<subseteq> N0" "set (remaining_files l) \<inter> set (processed_files l) = {}"
    using assms(1) by (auto simp: set_remaining_files unprocessed_def grouping_inv_def)
  have dr: "distinct (remaining_files l)"
    using assms(1) by (simp add: distinct_remaining_files grouping_inv_def)
  show ?thesis
  proof (cases "build_similarity_groups (remaining_files l)")
    case Nil
    show ?thesis
    proof (cases "makedirs [''Miscellaneous''] (disk (eng l))")
      case None
      with False Nil show ?thesis by (simp add: grouping_iteration_def)
    next
      case (Some fs')
      note w = with_disk_inv[OF assms(1) Some]
      note k = with_disk_sorted[OF assms(2) Some]
      have "set (remaining_files l) \<inter> set (processed_files (with_disk fs' l)) = {}"
        using rem(2) by (simp add: with_disk_def)
      from foldl_move_and_mark_sorted[OF w(1) k rem(1) dr this w(2) assms(3), of t]
      show ?thesis using False Nil Some by (simp add: grouping_iteration_def)
    qed
  next
    case (Cons grp rest)
    obtain common_str file_set where grp: "grp = (common_str, file_set)" by (cases grp)
    show ?thesis
    proof (cases "makedirs [folder_name_of common_str] (disk (eng l))")
      case None
      with False Cons grp show ?thesis by (simp add: grouping_iteration_def)
    next
      case (Some fs')
      note w = with_disk_inv[OF assms(1) Some]
      note k = with_disk_sorted[OF assms(2) Some]
      from build_similarity_groups_over[of "remaining_files l"] Cons grp rem(1)
      have fsn: "set file_set \<subseteq> N0" by (auto simp: groups_over_def)
      from foldl_move_group_file_sorted[OF w(1) k fsn w(2) assms(3), of t]
      show ?thesis using False Cons grp Some
        by (simp add: grouping_iteration_def Let_def)
    qed
  qed
qed

lemma grouping_loop_sorted:
  assumes "grouping_inv N0 l" and "sorted_inv F0 (eng l)" and "(\<lambda>f. [f]) ` N0 \<subseteq> F0"
    and "grouping_loop t l = Inr l'"
  shows "sorted_inv F0 (eng l')"
  using assms(1,2,4)
proof (induction t l rule: grouping_loop.induct)
  case (1 t l)
  note j = grouping_iteration_inv[OF "1.prems"(1), of t]
  note k = grouping_iteration_sorted[OF "1.prems"(1,2) assms(3), of t]
  show ?case
  proof (cases "grouping_iteration t l")
    case (Break l1)
    with k "1.prems"(3) show ?thesis by (simp add: grouping_loop.simps[of t l])
  next
    case (Raise err l1)
    with "1.prems"(3) show ?thesis by (simp add: grouping_loop.simps[of t l])
  next
    case (Continue l1)
    with j k have i1: "grouping_inv N0 l1" "sorted_inv F0 (eng l1)" by simp_all
    from "1.prems"(3) Continue have "grouping_loop t l1 = Inr l'"
      by (simp add: grouping_loop.simps[of t l])
    from "1.IH"[OF Continue i1 this] show ?thesis .
  qed
qed

lemma flat_folder_wf: "flat_folder fs \<Longrightarrow> wf_disk fs"
  by (simp add: flat_folder_def wf_disk_def)

lemma flat_folder_names: "flat_folder fs \<Longrightarrow> (\<lambda>f. [f]) ` root_names fs = set (files fs)"
proof -
  assume a: "flat_folder fs"
  have "p \<in> set (files fs) \<Longrightarrow> p \<in> (\<lambda>f. [f]) ` root_names fs" for p
  proof -
    assume p: "p \<in> set (files fs)"
    with a have "length p = 1" by (auto simp: flat_folder_def list_all_iff)
    then obtain f where "p = [f]" by (cases p) auto
    with p show ?thesis by (auto simp: root_names_def)
  qed
  then show ?thesis by (auto simp: root_names_def)
qed

lemma sorted_inv_initial:
  assumes "flat_folder (disk e)" and "moved_files e = []"
  shows "sorted_inv (set (files (disk e))) e"
  using assms flat_folder_wf[OF assms(1)]
  by (auto simp: sorted_inv_def flat_folder_def list_all_iff isdir_def
        dest!: spec)
     (metis One_nat_def butlast.simps(2) length_0_conv length_Suc_conv)

lemma grouping_phase_sorted:
  assumes "flat_folder (disk e)" and "fresh e" and "grouping_phase e = Inr l"
  shows "sorted_inv (set (files (disk e))) (eng l)"
proof -
  let ?l0 = "\<lparr>eng = emit (StatusUpdate Phase1) e, processed_files = [], processed_count = 0\<rparr>"
  have j: "grouping_inv (root_names (disk e)) ?l0"
    by (rule grouping_inv_initial[OF assms(2) flat_folder_wf[OF assms(1)]])
  have k: "sorted_inv (set (files (disk e))) (eng ?l0)"
    using sorted_inv_initial[OF assms(1)] assms(2) by (simp add: fresh_def)
  have s: "(\<lambda>f. [f]) ` root_names (disk e) \<subseteq> set (files (disk e))"
    using flat_folder_names[OF assms(1)] by simp
  from grouping_loop_sorted[OF j k s] assms(3) show ?thesis
    by (simp add: grouping_phase_def)
qed

lemma media_extension_not_folder_name:
  assumes "endswith (lower f) image_extensions \<or> endswith (lower f) video_extensions"
  shows "f \<notin> set media_names"
proof -
  have "\<not> endswith (lower ''Images'') image_extensions" by code_simp
  moreover have "\<not> endswith (lower ''Images'') video_extensions" by code_simp
  moreover have "\<not> endswith (lower ''Videos'') image_extensions" by code_simp
  moreover have "\<not> endswith (lower ''Videos'') video_extensions" by code_simp
  ultimately show ?thesis using assms by (auto simp: media_names_def)
qed

lemma image_not_video:
  assumes "endswith s image_extensions"
  shows "\<not> endswith s video_extensions"
proof
  assume "endswith s video_extensions"
  with assms obtain i v where i: "i \<in> set image_extensions" "suffix i s"
    and v: "v \<in> set video_extensions" "suffix v s"
    by (auto simp: endswith_def list_ex_iff)
  have "list_all (\<lambda>i. list_all (\<lambda>v. \<not> suffix i v \<and> \<not> suffix v i) video_extensions)
          image_extensions"
    by code_simp
  with i(1) v(1) have "\<not> suffix i v \<and> \<not> suffix v i" by (auto simp: list_all_iff)
  with suffix_same_cases[OF i(2) v(2)] show False by auto
qed

lemma distinct_listing:
  assumes "wf_disk fs"
  shows "distinct (filter (\<lambda>f. isfile fs (sub @ [f])) (listdir fs sub))"
proof -
  let ?top = "\<lambda>p::path. p \<noteq> [] \<and> butlast p = sub"
  have inj: "inj_on last {p. ?top p}"
  proof (rule inj_onI)
    fix p q :: path
    assume "p \<in> {p. ?top p}" "q \<in> {p. ?top p}" "last p = last q"
    then show "p = q" by (metis (mono_tags, lifting) append_butlast_last_id mem_Collect_eq)
  qed
  have single: "?top p \<Longrightarrow> sub @ [last p] = p" for p :: path
    by (metis append_butlast_last_id)
  have a: "filter (\<lambda>f. isfile fs (sub @ [f])) (map last (filter ?top (dirs fs))) = []"
  proof -
    have "\<not> isfile fs (sub @ [last p])" if "p \<in> set (dirs fs)" "?top p" for p
      using that assms single[of p] by (auto simp: wf_disk_def isfile_def)
    then show ?thesis by (auto simp: filter_empty_conv)
  qed
  have b: "distinct (map last (filter ?top (files fs)))"
    using assms inj by (auto simp: wf_disk_def distinct_map intro: inj_on_subset)
  show ?thesis
    using a b by (simp add: listdir_def)
qed

lemma foldl_move_media_file_sorted:
  assumes "sorted_inv F0 e" and "distinct names"
    and "\<forall>f\<in>set names. isfile (disk e) [sub, f] \<and> f \<notin> set media_names"
    and "isdir (disk e) [sub, kind]"
  shows "sorted_inv F0 (foldl (move_media_file [sub] kind) e names)
       \<and> dirs (disk (foldl (move_media_file [sub] kind) e names)) = dirs (disk e)
       \<and> (\<forall>p. isfile (disk e) p \<and> p \<notin> (\<lambda>f. [sub, f]) ` set names
              \<longrightarrow> isfile (disk (foldl (move_media_file [sub] kind) e names)) p)"
  using assms
proof (induction names arbitrary: e)
  case Nil
  then show ?case by simp
next
  case (Cons f names)
  let ?e1 = "move_media_file [sub] kind e f"
  from Cons.prems have isf: "isfile (disk e) [sub, f]" and nm: "f \<notin> set media_names"
    and rest: "\<forall>f'\<in>set names. isfile (disk e) [sub, f'] \<and> f' \<notin> set media_names"
    and d: "distinct names" "f \<notin> set names" by auto
  have ok: "src_ok F0 [sub, f]" using nm by (simp add: src_ok_def)
  have bd: "isdir (disk e) (butlast [sub, kind, f])" using Cons.prems(4) by simp
  note st = sorted_inv_mover[OF Cons.prems(1) isf bd _ ok]
  have k1: "sorted_inv F0 ?e1" and d1: "dirs (disk ?e1) = dirs (disk e)"
    using st(1,2) by (simp_all add: move_media_file_def)
  have keep: "isfile (disk e) p \<Longrightarrow> p \<noteq> [sub, f] \<Longrightarrow> isfile (disk ?e1) p" for p
    using st(3)[of p] by (simp add: move_media_file_def)
  have rest1: "\<forall>f'\<in>set names. isfile (disk ?e1) [sub, f'] \<and> f' \<notin> set media_names"
    using rest d(2) keep by auto
  have dir1: "isdir (disk ?e1) [sub, kind]"
    using Cons.prems(4) d1 by (simp add: isdir_def)
  from Cons.IH[OF k1 d(1) rest1 dir1] d1 keep show ?case by auto
qed

lemma move_media_sorted:
  assumes "sorted_inv F0 e" and "distinct names"
    and "\<forall>f\<in>set names. isfile (disk e) [sub, f] \<and> f \<notin> set media_names"
    and "isdir (disk e) [sub]" and "kind \<in> set media_names"
    and "move_media [sub] kind names (e, n) = Inr (e', n')"
  shows "sorted_inv F0 e'
       \<and> set (dirs (disk e)) \<subseteq> set (dirs (disk e'))
       \<and> (\<forall>p. isfile (disk e) p \<and> p \<notin> (\<lambda>f. [sub, f]) ` set names \<longrightarrow> isfile (disk e') p)"
proof (cases "names = []")
  case True
  with assms(1,6) show ?thesis by (auto simp: move_media_def)
next
  case False
  with assms(6) obtain fs' where mk: "makedirs [sub, kind] (disk e) = Some fs'"
    and e': "e' = foldl (move_media_file [sub] kind) (e\<lparr>disk := fs'\<rparr>) names"
    by (auto simp: move_media_def split: option.splits)
  let ?e1 = "e\<lparr>disk := fs'\<rparr>"
  have k1: "sorted_inv F0 ?e1"
    by (rule sorted_inv_makedirs[OF assms(1) mk]) (use assms(4,5) in simp)
  have f1: "files fs' = files (disk e)" using makedirs_files[OF mk] by simp
  have d1: "isdir fs' [sub, kind]" "set (dirs (disk e)) \<subseteq> set (dirs fs')"
    using makedirs_dirs[OF mk] by simp_all
  have if1: "isfile (disk ?e1) p = isfile (disk e) p" for p
    by (simp add: isfile_def f1)
  from foldl_move_media_file_sorted[of F0 ?e1 names sub kind] k1 assms(2,3) d1(1)
  have "sorted_inv F0 e' \<and> dirs (disk e') = dirs fs'
       \<and> (\<forall>p. isfile (disk e) p \<and> p \<notin> (\<lambda>f. [sub, f]) ` set names \<longrightarrow> isfile (disk e') p)"
    unfolding e' if1 by simp
  with d1(2) show ?thesis by auto
qed

lemma process_subdir_sorted:
  assumes "sorted_inv F0 e" and "isdir (disk e) [sub]"
    and "process_subdir [sub] (e, ic, vc) = Inr (e', ic', vc')"
  shows "sorted_inv F0 e' \<and> set (dirs (disk e)) \<subseteq> set (dirs (disk e'))"
proof -
  let ?fl = "filter (\<lambda>f. isfile (disk e) ([sub] @ [f])) (listdir (disk e) [sub])"
  let ?images = "filter (\<lambda>f. endswith (lower f) image_extensions) ?fl"
  let ?videos = "filter (\<lambda>f. endswith (lower f) video_extensions) ?fl"
  from assms(1) have wf: "wf_disk (disk e)" by (simp add: sorted_inv_def)
  have dfl: "distinct ?fl" by (rule distinct_listing[OF wf])
  have di: "distinct ?images" and dv: "distinct ?videos"
    using dfl by (rule distinct_filter)+
  from assms(3) obtain e1 ic1 where
    i: "move_media [sub] ''Images'' ?images (e, ic) = Inr (e1, ic1)"
    and v: "move_media [sub] ''Videos'' ?videos (e1, vc) = Inr (e', vc')"
    by (auto simp: process_subdir_def Let_def split: sum.splits prod.splits)
  have im: "\<forall>f\<in>set ?images. isfile (disk e) [sub, f] \<and> f \<notin> set media_names"
    using media_extension_not_folder_name by auto
  have s1: "sorted_inv F0 e1 \<and> set (dirs (disk e)) \<subseteq> set (dirs (disk e1))
       \<and> (\<forall>p. isfile (disk e) p \<and> p \<notin> (\<lambda>f. [sub, f]) ` set ?images \<longrightarrow> isfile (disk e1) p)"
    by (rule move_media_sorted[OF assms(1) di im assms(2) _ i]) (simp add: media_names_def)
  have vm: "\<forall>f\<in>set ?videos. isfile (disk e1) [sub, f] \<and> f \<notin> set media_names"
  proof
    fix f assume f: "f \<in> set ?videos"
    then have "isfile (disk e) [sub, f]" "endswith (lower f) video_extensions" by auto
    moreover have "[sub, f] \<notin> (\<lambda>f. [sub, f]) ` set ?images"
      using image_not_video[of "lower f"] f by auto
    ultimately show "isfile (disk e1) [sub, f] \<and> f \<notin> set media_names"
      using s1 media_extension_not_folder_name[of f] by blast
  qed
  have d1: "isdir (disk e1) [sub]" using assms(2) s1 by (auto simp: isdir_def)
  have s2: "sorted_inv F0 e' \<and> set (dirs (disk e1)) \<subseteq> set (dirs (disk e'))
       \<and> (\<forall>p. isfile (disk e1) p \<and> p \<notin> (\<lambda>f. [sub, f]) ` set ?videos \<longrightarrow> isfile (disk e') p)"
    by (rule move_media_sorted[OF conjunct1[OF s1] dv vm d1 _ v]) (simp add: media_names_def)
  with s1 show ?thesis by blast
qed

lemma process_subdirs_sorted:
  assumes "sorted_inv F0 e"
    and "list_all (\<lambda>p. \<exists>sub. p = [sub] \<and> isdir (disk e) [sub]) subdirs"
    and "process_subdirs subdirs (e, ic, vc) = Inr (e', ic', vc')"
  shows "sorted_inv F0 e'"
  using assms
proof (induction subdirs arbitrary: e ic vc)
  case Nil
  then show ?case by simp
next
  case (Cons p subdirs)
  from Cons.prems(2) obtain sub where p: "p = [sub]" "isdir (disk e) [sub]" by auto
  from Cons.prems(3) obtain e1 ic1 vc1 where
    a: "process_subdir [sub] (e, ic, vc) = Inr (e1, ic1, vc1)"
    and b: "process_subdirs subdirs (e1, ic1, vc1) = Inr (e', ic', vc')"
    by (auto simp: p(1) split: sum.splits)
  note s = process_subdir_sorted[OF Cons.prems(1) p(2) a]
  have "list_all (\<lambda>p. \<exists>sub. p = [sub] \<and> isdir (disk e1) [sub]) subdirs"
    using Cons.prems(2) s by (auto simp: list_all_iff isdir_def)
  from Cons.IH[OF _ this b] s show ?case by simp
qed

lemma process_media_files_sorted:
  assumes "sorted_inv F0 e" and "process_media_files e = Inr e'"
  shows "sorted_inv F0 e'"
proof -
  from assms(2) obtain e1 ic vc where
    a: "process_subdirs (media_subdirs (disk e)) (e, 0, 0) = Inr (e1, ic, vc)"
    and e': "e' = (if 0 < ic \<or> 0 < vc then emit (StatusUpdate (SortedMedia ic vc)) e1 else e1)"
    by (auto simp: process_media_files_def split: sum.splits)
  have "list_all (\<lambda>p. \<exists>sub. p = [sub] \<and> isdir (disk e) [sub]) (media_subdirs (disk e))"
    using media_subdirs_shape[of "disk e"] by (auto simp: list_all_iff)
  from process_subdirs_sorted[OF assms(1) this a] e' show ?thesis by simp
qed

lemma run_sorted:
  assumes "flat_folder (disk e)" and "fresh e" and "run e = Inr e'"
  shows "sorted_inv (set (files (disk e))) e'"
proof (cases "get_all_files (disk e) = []")
  case True
  with assms(3) have "e' = emit FinishedSignal (emit (StatusUpdate NoFilesFound) e)"
    by (simp add: run_def)
  with sorted_inv_initial[OF assms(1)] assms(2) show ?thesis by (simp add: fresh_def)
next
  case False
  from run_grouping_phase[OF assms(3)] obtain l where gp: "grouping_phase e = Inr l" by blast
  note k = grouping_phase_sorted[OF assms(1,2) gp]
  show ?thesis
  proof (cases "media_sort_enabled (eng l)")
    case False
    with assms(3) \<open>get_all_files (disk e) \<noteq> []\<close> gp k show ?thesis
      by (auto simp: run_def)
  next
    case True
    with assms(3) \<open>get_all_files (disk e) \<noteq> []\<close> gp obtain e2 where
      m: "process_media_files (emit (StatusUpdate Phase2) (eng l)) = Inr e2"
      and e': "e' = emit FinishedSignal (emit (UpdateProgress 100) e2)"
      by (auto simp: run_def split: sum.splits)
    from process_media_files_sorted[OF _ m] k e' show ?thesis by simp
  qed
qed

lemma isdir_files_update [simp]: "isdir (fs\<lparr>files := X\<rparr>) q = isdir fs q"
  by (simp add: isdir_def)

lemma restore_clean:
  assumes "isfile (disk e) d" and "locked (disk e) = []" and "isdir (disk e) (butlast s)"
    and "s \<notin> set (dirs (disk e))" and "s \<noteq> []"
  shows "restore e (s, d) =
           e\<lparr>disk := (disk e)\<lparr>files := filter (\<lambda>p. p \<noteq> d \<and> p \<noteq> s) (files (disk e)) @ [s]\<rparr>\<rparr>"
proof -
  have nd: "\<not> isdir (disk e) s" using assms(4,5) by (simp add: isdir_def)
  have nl: "d \<notin> set (locked (disk e))" using assms(2) by simp
  have pe: "path_exists (disk e) d" "path_exists (disk e) (butlast s)"
    using assms(1,3) by (simp_all add: path_exists_def)
  from shutil_move_file[OF assms(1) nl nd assms(3)] pe show ?thesis
    by (simp add: restore_def)
qed

lemma foldl_restore_clean:
  assumes "valid_log log F0" and "apply_log log F0 = set (files (disk e))"
    and "distinct (files (disk e))" and "locked (disk e) = []"
    and "list_all (\<lambda>r. isdir (disk e) (butlast (fst r)) \<and> fst r \<notin> set (dirs (disk e))
                        \<and> fst r \<noteq> []) log"
  shows "set (files (disk (foldl restore e (rev log)))) = F0
       \<and> distinct (files (disk (foldl restore e (rev log))))
       \<and> dirs (disk (foldl restore e (rev log))) = dirs (disk e)
       \<and> locked (disk (foldl restore e (rev log))) = []"
  using assms
proof (induction log arbitrary: e rule: rev_induct)
  case Nil
  then show ?case by simp
next
  case (snoc r xs)
  obtain s d where r: "r = (s, d)" by (cases r)
  let ?G = "apply_log xs F0"
  from snoc.prems(1) have v: "valid_log xs F0" "s \<in> ?G" "d \<notin> ?G"
    by (simp_all add: r valid_log_append)
  from snoc.prems(2) have fs: "set (files (disk e)) = insert d (?G - {s})"
    by (simp add: r apply_log_append)
  then have isf: "isfile (disk e) d" by (simp add: isfile_def)
  from snoc.prems(5) have c: "isdir (disk e) (butlast s)" "s \<notin> set (dirs (disk e))" "s \<noteq> []"
    and cs: "list_all (\<lambda>r. isdir (disk e) (butlast (fst r)) \<and> fst r \<notin> set (dirs (disk e))
                        \<and> fst r \<noteq> []) xs"
    by (simp_all add: r)
  let ?e1 = "e\<lparr>disk := (disk e)\<lparr>files := filter (\<lambda>p. p \<noteq> d \<and> p \<noteq> s) (files (disk e)) @ [s]\<rparr>\<rparr>"
  have re: "restore e (s, d) = ?e1"
    by (rule restore_clean[OF isf snoc.prems(4) c])
  have f1: "set (files (disk ?e1)) = ?G"
    using fs v(2,3) by auto
  have d1: "distinct (files (disk ?e1))"
    using snoc.prems(3) by simp
  have cs1: "list_all (\<lambda>r. isdir (disk ?e1) (butlast (fst r)) \<and> fst r \<notin> set (dirs (disk ?e1))
                        \<and> fst r \<noteq> []) xs"
    using cs by simp
  have l1: "locked (disk ?e1) = []" using snoc.prems(4) by simp
  from snoc.IH[OF v(1) f1[symmetric] d1 l1 cs1]
  show ?case by (simp add: r re)
qed

lemma set_children:
  "set (filter (\<lambda>d. isdir fs (r @ [d])) (listdir fs r)) = {d. r @ [d] \<in> set (dirs fs)}"
proof -
  have "r @ [d] \<in> set (dirs fs) \<Longrightarrow> d \<in> set (listdir fs r)" for d
    by (force simp: listdir_def image_iff)
  then show ?thesis by (auto simp: isdir_def)
qed

lemma listdir_empty:
  "listdir fs q = [] \<longleftrightarrow> (\<forall>p\<in>set (files fs) \<union> set (dirs fs). p = [] \<or> butlast p \<noteq> q)"
  by (auto simp: listdir_def filter_empty_conv)

lemma strict_prefix_child:
  assumes "strict_prefix r p"
  shows "\<exists>d. prefix (r @ [d]) p"
proof -
  from assms obtain zs where "p = r @ zs" "zs \<noteq> []" by (auto simp: strict_prefix_def prefix_def)
  then obtain d rest where "p = r @ [d] @ rest" by (cases zs) auto
  then show ?thesis by (auto simp: prefix_def)
qed

lemma prefix_child_strict: "prefix (r @ [d]) p \<Longrightarrow> strict_prefix r p"
  by (auto simp: strict_prefix_def prefix_def)

lemma prefix_two_children:
  "prefix (r @ [d]) p \<Longrightarrow> prefix (r @ [d']) p \<Longrightarrow> d = d'"
  by (auto simp: prefix_def append_eq_append_conv2 Cons_eq_append_conv)

lemma rmdir_pass:
  assumes "\<forall>p\<in>set (files fs0). prefix r p \<longrightarrow> length p \<le> length r + 1"
    and "files fs = files fs0" and "locked fs = locked fs0"
    and "set (dirs fs) \<subseteq> set (dirs fs0)"
    and "\<forall>p\<in>set (dirs fs). strict_prefix r p \<longrightarrow> length p = length r + 1"
  shows "files (foldl (rmdir_if_empty r) fs ds) = files fs0
       \<and> locked (foldl (rmdir_if_empty r) fs ds) = locked fs0
       \<and> set (dirs (foldl (rmdir_if_empty r) fs ds)) = set (dirs fs) - (\<lambda>d. r @ [d]) ` set ds"
  using assms(2-5)
proof (induction ds arbitrary: fs)
  case Nil
  then show ?case by simp
next
  case (Cons d ds)
  have empty: "listdir fs (r @ [d]) = []"
  proof -
    have "p = [] \<or> butlast p \<noteq> r @ [d]" if "p \<in> set (files fs)" for p
    proof (rule ccontr)
      assume "\<not> (p = [] \<or> butlast p \<noteq> r @ [d])"
      then have "p = r @ [d] @ [last p]" by (metis append_butlast_last_id append_assoc)
      then have "prefix r p" "length p = length r + 2"
        by (metis prefixI, metis length_append length_Cons list.size(3) add_2_eq_Suc' add_Suc_right add_0_right)
      with assms(1) that Cons.prems(1) show False by auto
    qed
    moreover have "p = [] \<or> butlast p \<noteq> r @ [d]" if "p \<in> set (dirs fs)" for p
    proof (rule ccontr)
      assume "\<not> (p = [] \<or> butlast p \<noteq> r @ [d])"
      then have "p = r @ [d] @ [last p]" by (metis append_butlast_last_id append_assoc)
      then have "strict_prefix r p" "length p = length r + 2"
        by (metis append_Cons prefix_child_strict prefixI append_assoc,
            metis length_append length_Cons list.size(3) add_2_eq_Suc' add_Suc_right add_0_right)
      with Cons.prems(4) that show False by auto
    qed
    ultimately show ?thesis by (auto simp: listdir_empty)
  qed
  let ?fs1 = "rmdir_if_empty r fs d"
  have s1: "files ?fs1 = files fs0" "locked ?fs1 = locked fs0"
    "set (dirs ?fs1) = set (dirs fs) - {r @ [d]}"
    using empty Cons.prems(1,2)
    by (auto simp: rmdir_if_empty_def rmdir_def path_exists_def isdir_def)
  have "set (dirs ?fs1) \<subseteq> set (dirs fs0)"
    "\<forall>p\<in>set (dirs ?fs1). strict_prefix r p \<longrightarrow> length p = length r + 1"
    using s1(3) Cons.prems(3,4) by auto
  from Cons.IH[OF s1(1,2) this] s1(3) show ?case by auto
qed

lemma walk_rmdir_clears:
  assumes "\<forall>p\<in>set (files fs). prefix r p \<longrightarrow> length p \<le> length r + 1"
    and "\<forall>p\<in>set (dirs fs). strict_prefix r p \<longrightarrow> length p \<le> length r + k"
    and "\<forall>p\<in>set (dirs fs). \<forall>q. strict_prefix r q \<and> prefix q p \<longrightarrow> q \<in> set (dirs fs)"
  shows "\<exists>fs'. walk_rmdir (Suc k) r fs = Some fs' \<and> cleared r fs fs'"
  using assms
proof (induction k arbitrary: r fs)
  case 0
  have "filter (\<lambda>d. isdir fs (r @ [d])) (listdir fs r) = []"
  proof -
    have "r @ [d] \<notin> set (dirs fs)" for d
    proof
      assume "r @ [d] \<in> set (dirs fs)"
      moreover have "strict_prefix r (r @ [d])" by (rule prefix_child_strict) simp
      ultimately have "length (r @ [d]) \<le> length r + 0" using "0.prems"(2) by blast
      then show False by simp
    qed
    then have "{d. r @ [d] \<in> set (dirs fs)} = {}" by simp
    then show ?thesis using set_children[of fs r] by simp
  qed
  moreover have "\<not> strict_prefix r p" if "p \<in> set (dirs fs)" for p
    using "0.prems"(2) that by (auto simp: strict_prefix_def prefix_def)
  ultimately show ?case by (auto simp: cleared_def)
next
  case (Suc k)
  define ds where "ds = filter (\<lambda>d. isdir fs (r @ [d])) (listdir fs r)"
  have ds: "set ds = {d. r @ [d] \<in> set (dirs fs)}" unfolding ds_def by (rule set_children)
  have unfold: "walk_rmdir (Suc (Suc k)) r fs =
      (case fold_option (\<lambda>d. walk_rmdir (Suc k) (r @ [d])) ds fs of
         None \<Rightarrow> None
       | Some fs1 \<Rightarrow> Some (foldl (rmdir_if_empty r) fs1 ds))"
    unfolding ds_def by (simp add: Let_def)
  have pass1: "\<exists>fs'. fold_option (\<lambda>d. walk_rmdir (Suc k) (r @ [d])) xs fs1 = Some fs'
            \<and> files fs' = files fs \<and> locked fs' = locked fs
            \<and> set (dirs fs') = set (dirs fs) - {p. \<exists>d\<in>D \<union> set xs. strict_prefix (r @ [d]) p}"
    if "files fs1 = files fs" "locked fs1 = locked fs"
      "set (dirs fs1) = set (dirs fs) - {p. \<exists>d\<in>D. strict_prefix (r @ [d]) p}"
    for xs fs1 D
    using that
  proof (induction xs arbitrary: fs1 D)
    case Nil
    then show ?case by simp
  next
    case (Cons d xs)
    have a: "\<forall>p\<in>set (files fs1). prefix (r @ [d]) p \<longrightarrow> length p \<le> length (r @ [d]) + 1"
    proof (intro ballI impI)
      fix p assume p: "p \<in> set (files fs1)" "prefix (r @ [d]) p"
      then have "prefix r p" by (auto simp: prefix_def)
      with p(1) Suc.prems(1) Cons.prems(1) have "length p \<le> length r + 1" by auto
      then show "length p \<le> length (r @ [d]) + 1" by simp
    qed
    have b: "\<forall>p\<in>set (dirs fs1). strict_prefix (r @ [d]) p \<longrightarrow> length p \<le> length (r @ [d]) + k"
    proof (intro ballI impI)
      fix p assume p: "p \<in> set (dirs fs1)" "strict_prefix (r @ [d]) p"
      then have "strict_prefix r p" by (auto simp: strict_prefix_def prefix_def)
      with p(1) Cons.prems(3) Suc.prems(2) show "length p \<le> length (r @ [d]) + k" by auto
    qed
    have c: "\<forall>p\<in>set (dirs fs1). \<forall>q. strict_prefix (r @ [d]) q \<and> prefix q p \<longrightarrow> q \<in> set (dirs fs1)"
    proof (intro ballI allI impI)
      fix p q assume p: "p \<in> set (dirs fs1)" and q: "strict_prefix (r @ [d]) q \<and> prefix q p"
      then have "strict_prefix r q" by (auto simp: strict_prefix_def prefix_def)
      with p q Cons.prems(3) Suc.prems(3) have q0: "q \<in> set (dirs fs)" by auto
      have "\<not> strict_prefix (r @ [d']) q" if "d' \<in> D" for d'
      proof
        assume "strict_prefix (r @ [d']) q"
        with q have "strict_prefix (r @ [d']) p" by (auto simp: strict_prefix_def prefix_def)
        with p Cons.prems(3) that show False by auto
      qed
      with q0 Cons.prems(3) show "q \<in> set (dirs fs1)" by auto
    qed
    from Suc.IH[OF a b c] obtain fs2 where
      w: "walk_rmdir (Suc k) (r @ [d]) fs1 = Some fs2" and cl: "cleared (r @ [d]) fs1 fs2"
      by blast
    have f2: "files fs2 = files fs" "locked fs2 = locked fs"
      using cl Cons.prems(1,2) by (simp_all add: cleared_def)
    have d2: "set (dirs fs2) = set (dirs fs) - {p. \<exists>d'\<in>insert d D. strict_prefix (r @ [d']) p}"
      using cl Cons.prems(3) by (auto simp: cleared_def)
    from Cons.IH[OF f2 d2] w show ?case by auto
  qed
  from pass1[of fs "{}" ds] obtain fs1 where
    p1: "fold_option (\<lambda>d. walk_rmdir (Suc k) (r @ [d])) ds fs = Some fs1"
    and f1: "files fs1 = files fs" "locked fs1 = locked fs"
    and d1: "set (dirs fs1) = set (dirs fs) - {p. \<exists>d\<in>set ds. strict_prefix (r @ [d]) p}"
    by auto
  have sub1: "set (dirs fs1) \<subseteq> set (dirs fs)" using d1 by auto
  have one: "\<forall>p\<in>set (dirs fs1). strict_prefix r p \<longrightarrow> length p = length r + 1"
  proof (intro ballI impI)
    fix p assume p: "p \<in> set (dirs fs1)" "strict_prefix r p"
    from strict_prefix_child[OF p(2)] obtain d where d: "prefix (r @ [d]) p" by blast
    have "strict_prefix r (r @ [d])" by (simp add: strict_prefix_def prefix_def)
    with d p(1) sub1 Suc.prems(3) have "r @ [d] \<in> set (dirs fs)" by blast
    then have "d \<in> set ds" by (simp add: ds)
    with p(1) d1 have "\<not> strict_prefix (r @ [d]) p" by auto
    with d have "p = r @ [d]" by (auto simp: strict_prefix_def)
    then show "length p = length r + 1" by simp
  qed
  from rmdir_pass[OF Suc.prems(1) f1 sub1 one, of ds]
  have p2: "files (foldl (rmdir_if_empty r) fs1 ds) = files fs"
    "locked (foldl (rmdir_if_empty r) fs1 ds) = locked fs"
    "set (dirs (foldl (rmdir_if_empty r) fs1 ds)) = set (dirs fs1) - (\<lambda>d. r @ [d]) ` set ds"
    by simp_all
  have "set (dirs fs1) - (\<lambda>d. r @ [d]) ` set ds = {p \<in> set (dirs fs). \<not> strict_prefix r p}"
  proof (rule set_eqI, rule iffI)
    fix p assume a: "p \<in> set (dirs fs1) - (\<lambda>d. r @ [d]) ` set ds"
    then have p: "p \<in> set (dirs fs1)" "p \<in> set (dirs fs)" using sub1 by auto
    have "\<not> strict_prefix r p"
    proof
      assume sp: "strict_prefix r p"
      with one p(1) have len: "length p = length r + 1" by auto
      from strict_prefix_child[OF sp] obtain d where "prefix (r @ [d]) p" by blast
      with len have "p = r @ [d]" by (auto simp: prefix_def)
      with p(2) a show False by (auto simp: ds)
    qed
    with p(2) show "p \<in> {p \<in> set (dirs fs). \<not> strict_prefix r p}" by simp
  next
    fix p assume a: "p \<in> {p \<in> set (dirs fs). \<not> strict_prefix r p}"
    then have "\<not> strict_prefix (r @ [d]) p" for d
      by (auto simp: strict_prefix_def prefix_def)
    moreover have "p \<noteq> r @ [d]" for d
      using a by (auto simp: strict_prefix_def prefix_def)
    ultimately show "p \<in> set (dirs fs1) - (\<lambda>d. r @ [d]) ` set ds"
      using a d1 by auto
  qed
  with p1 p2 show ?case unfolding unfold by (simp add: cleared_def)
qed

lemma dir_depth_bound: "p \<in> set (dirs fs) \<Longrightarrow> length p \<le> dir_depth fs"
proof -
  have "x \<in> set xs \<Longrightarrow> x \<le> foldr max xs (0::nat)" for x xs
    by (induction xs) auto
  then show "p \<in> set (dirs fs) \<Longrightarrow> length p \<le> dir_depth fs"
    by (simp add: dir_depth_def)
qed

text \<open>
  The walk is modelled with a bound on its depth. The bound that \<open>undo_sorting\<close>
  passes is always enough: the walk returns for every file system, so that the
  branch of \<open>undo_sorting\<close> for a walk cut short is never taken.
\<close>

lemma rmdir_pass_subset:
  "set (dirs (foldl (rmdir_if_empty r) fs ds)) \<subseteq> set (dirs fs)"
proof (induction ds arbitrary: fs)
  case Nil
  show ?case by simp
next
  case (Cons d ds)
  have "set (dirs (rmdir_if_empty r fs d)) \<subseteq> set (dirs fs)"
    by (auto simp: rmdir_if_empty_def rmdir_def)
  with Cons.IH[of "rmdir_if_empty r fs d"] show ?case by auto
qed

lemma walk_rmdir_returns:
  assumes "\<forall>p\<in>set (dirs fs). strict_prefix r p \<longrightarrow> length p \<le> length r + k"
  shows "\<exists>fs'. walk_rmdir (Suc k) r fs = Some fs' \<and> set (dirs fs') \<subseteq> set (dirs fs)"
  using assms
proof (induction k arbitrary: r fs)
  case 0
  have "r @ [d] \<notin> set (dirs fs)" for d
  proof
    assume "r @ [d] \<in> set (dirs fs)"
    moreover have "strict_prefix r (r @ [d])" by (rule prefix_child_strict) simp
    ultimately have "length (r @ [d]) \<le> length r + 0" using "0.prems" by blast
    then show False by simp
  qed
  then have "{d. r @ [d] \<in> set (dirs fs)} = {}" by simp
  then have "filter (\<lambda>d. isdir fs (r @ [d])) (listdir fs r) = []"
    using set_children[of fs r] by simp
  then show ?case by simp
next
  case (Suc k)
  define ds where "ds = filter (\<lambda>d. isdir fs (r @ [d])) (listdir fs r)"
  have unfold: "walk_rmdir (Suc (Suc k)) r fs =
      (case fold_option (\<lambda>d. walk_rmdir (Suc k) (r @ [d])) ds fs of
         None \<Rightarrow> None
       | Some fs1 \<Rightarrow> Some (foldl (rmdir_if_empty r) fs1 ds))"
    unfolding ds_def by (simp add: Let_def)
  have pass1: "\<exists>fs'. fold_option (\<lambda>d. walk_rmdir (Suc k) (r @ [d])) xs fs1 = Some fs'
            \<and> set (dirs fs') \<subseteq> set (dirs fs)"
    if "set (dirs fs1) \<subseteq> set (dirs fs)" for xs fs1
    using that
  proof (induction xs arbitrary: fs1)
    case Nil
    then show ?case by simp
  next
    case (Cons d xs)
    have "\<forall>p\<in>set (dirs fs1). strict_prefix (r @ [d]) p \<longrightarrow> length p \<le> length (r @ [d]) + k"
    proof (intro ballI impI)
      fix p assume p: "p \<in> set (dirs fs1)" "strict_prefix (r @ [d]) p"
      then have "strict_prefix r p" by (auto simp: strict_prefix_def prefix_def)
      with p(1) Cons.prems Suc.prems show "length p \<le> length (r @ [d]) + k" by auto
    qed
    from Suc.IH[OF this] obtain fs2 where
      w: "walk_rmdir (Suc k) (r @ [d]) fs1 = Some fs2" and s: "set (dirs fs2) \<subseteq> set (dirs fs1)"
      by blast
    from Cons.IH[of fs2] s Cons.prems w show ?case by auto
  qed
  from pass1[of fs ds] obtain fs1 where
    p1: "fold_option (\<lambda>d. walk_rmdir (Suc k) (r @ [d])) ds fs = Some fs1"
    and s1: "set (dirs fs1) \<subseteq> set (dirs fs)" by auto
  from rmdir_pass_subset[of r fs1 ds] s1 p1 show ?case
    unfolding unfold by auto
qed

lemma walk_rmdir_total: "\<exists>fs'. walk_rmdir (Suc (dir_depth fs)) [] fs = Some fs'"
proof -
  have "\<forall>p\<in>set (dirs fs). strict_prefix [] p \<longrightarrow> length p \<le> length ([]::path) + dir_depth fs"
    using dir_depth_bound by auto
  from walk_rmdir_returns[OF this] show ?thesis by blast
qed

lemma undo_sorting_walks:
  "\<exists>fs'. walk_rmdir (Suc (dir_depth (disk (foldl restore e (rev (moved_files e)))))) []
            (disk (foldl restore e (rev (moved_files e)))) = Some fs'
        \<and> undo_sorting e = (foldl restore e (rev (moved_files e)))\<lparr>disk := fs'\<rparr>"
proof -
  from walk_rmdir_total[of "disk (foldl restore e (rev (moved_files e)))"]
  obtain fs' where w: "walk_rmdir (Suc (dir_depth (disk (foldl restore e (rev (moved_files e)))))) []
            (disk (foldl restore e (rev (moved_files e)))) = Some fs'" by blast
  then have "undo_sorting e = (foldl restore e (rev (moved_files e)))\<lparr>disk := fs'\<rparr>"
    by (simp only: undo_sorting_def Let_def option.case)
  with w show ?thesis by blast
qed

lemma dir_ok_closed:
  assumes "list_all (dir_ok fs) (dirs fs)" and "p \<in> set (dirs fs)"
    and "strict_prefix [] q" and "prefix q p"
  shows "q \<in> set (dirs fs)"
proof -
  from assms(1,2) have ok: "dir_ok fs p" by (simp add: list_all_iff)
  from assms(3) have qn: "q \<noteq> []" by auto
  from ok consider "length p = 1" | "length p = 2" "[hd p] \<in> set (dirs fs)"
    by (auto simp: dir_ok_def)
  then show ?thesis
  proof cases
    case 1
    then obtain a where "p = [a]" by (cases p) auto
    with assms(4) qn have "q = p" by (cases q) (auto simp: prefix_def Cons_eq_append_conv)
    with assms(2) show ?thesis by simp
  next
    case 2
    then obtain a b where p: "p = [a, b]" by (cases p; cases "tl p") auto
    with assms(4) qn have "q = [a] \<or> q = [a, b]"
      by (cases q; cases "tl q") (auto simp: prefix_def Cons_eq_append_conv)
    with 2(2) p assms(2) show ?thesis by auto
  qed
qed

text \<open>
  Sort followed by undo restores exactly the original files directly under the
  folder and leaves no folder behind, when the folder is flat (it holds files only,
  each listed once, and no path is locked), the run completes, and no directory that
  exists after the run has the path of one of the original files.
\<close>

lemma undo_restores_without_namesake:
  assumes "flat_folder (disk e)" and "fresh e" and "run e = Inr e'"
    and "set (dirs (disk e')) \<inter> set (files (disk e)) = {}"
  shows "set (files (disk (undo_sorting e'))) = set (files (disk e))
       \<and> distinct (files (disk (undo_sorting e')))
       \<and> dirs (disk (undo_sorting e')) = []"
proof -
  let ?F0 = "set (files (disk e))"
  note k = run_sorted[OF assms(1,2,3)]
  then have k4: "list_all (dir_ok (disk e')) (dirs (disk e'))"
    and k1: "valid_log (moved_files e') ?F0" "apply_log (moved_files e') ?F0 = set (files (disk e'))"
    and k5: "list_all (\<lambda>r. isdir (disk e') (butlast (fst r)) \<and> src_ok ?F0 (fst r)) (moved_files e')"
    and wf: "distinct (files (disk e'))" and lk: "locked (disk e') = []"
    by (simp_all add: sorted_inv_def wf_disk_def)
  have rec: "list_all (\<lambda>r. isdir (disk e') (butlast (fst r)) \<and> fst r \<notin> set (dirs (disk e'))
                        \<and> fst r \<noteq> []) (moved_files e')"
  proof -
    have "s \<notin> set (dirs (disk e')) \<and> s \<noteq> []" if "src_ok ?F0 s" for s
    proof -
      from that consider "length s = 1" "s \<in> ?F0" | "length s = 2" "last s \<notin> set media_names"
        by (auto simp: src_ok_def)
      then show ?thesis
      proof cases
        case 1
        with assms(4) show ?thesis by auto
      next
        case 2
        have "s \<notin> set (dirs (disk e'))"
        proof
          assume "s \<in> set (dirs (disk e'))"
          with k4 have "dir_ok (disk e') s" by (simp add: list_all_iff)
          with 2 show False by (simp add: dir_ok_def)
        qed
        with 2(1) show ?thesis by auto
      qed
    qed
    with k5 show ?thesis by (auto simp: list_all_iff)
  qed
  let ?e1 = "foldl restore e' (rev (moved_files e'))"
  from foldl_restore_clean[OF k1 wf lk rec]
  have r: "set (files (disk ?e1)) = ?F0" "distinct (files (disk ?e1))"
    "dirs (disk ?e1) = dirs (disk e')" "locked (disk ?e1) = []"
    by simp_all
  have a: "\<forall>p\<in>set (files (disk ?e1)). prefix [] p \<longrightarrow> length p \<le> length ([]::path) + 1"
    using assms(1) r(1) by (auto simp: flat_folder_def list_all_iff)
  have b: "\<forall>p\<in>set (dirs (disk ?e1)). strict_prefix [] p
             \<longrightarrow> length p \<le> length ([]::path) + dir_depth (disk ?e1)"
    using dir_depth_bound by auto
  have k4': "list_all (dir_ok (disk ?e1)) (dirs (disk ?e1))"
    using k4 by (simp add: r(3) dir_ok_def[abs_def])
  have c: "\<forall>p\<in>set (dirs (disk ?e1)). \<forall>q. strict_prefix [] q \<and> prefix q p
             \<longrightarrow> q \<in> set (dirs (disk ?e1))"
    using dir_ok_closed[OF k4'] by blast
  from walk_rmdir_clears[OF a b c] obtain fs' where
    w: "walk_rmdir (Suc (dir_depth (disk ?e1))) [] (disk ?e1) = Some fs'"
    and cl: "cleared [] (disk ?e1) fs'" by blast
  have "strict_prefix [] p" if "p \<in> set (dirs (disk ?e1))" for p
  proof -
    from that k4' have "dir_ok (disk ?e1) p" by (simp add: list_all_iff)
    then have "p \<noteq> []" by (auto simp: dir_ok_def)
    then show ?thesis by (simp add: strict_prefix_def)
  qed
  then have "set (dirs fs') = {}"
    using cl by (auto simp: cleared_def)
  then have d: "dirs fs' = []" by simp
  have u: "undo_sorting e' = ?e1\<lparr>disk := fs'\<rparr>"
    by (simp only: undo_sorting_def Let_def w option.case)
  from cl r d show ?thesis by (simp add: u cleared_def)
qed

lemma flat_report_folder: "flat_folder (disk (fresh_engine report_folder False))"
  by (simp add: flat_folder_def fresh_engine_def report_folder_def)

lemma report_folder_round_trip:
  "\<exists>e'. run (fresh_engine report_folder False) = Inr e'
      \<and> set (files (disk (undo_sorting e'))) = set (files (disk (fresh_engine report_folder False)))
      \<and> distinct (files (disk (undo_sorting e')))
      \<and> dirs (disk (undo_sorting e')) = []"
proof -
  let ?e' = "\<lparr>disk = \<lparr>files = [[''report_v'', ''report_v1.txt''],
                                  [''report_v'', ''report_v2.txt''],
                                  [''Miscellaneous'', ''invoice.pdf'']],
                         dirs = [[''report_v''], [''Miscellaneous'']], locked = []\<rparr>,
                 moved_files = [([''report_v1.txt''], [''report_v'', ''report_v1.txt'']),
                                ([''report_v2.txt''], [''report_v'', ''report_v2.txt'']),
                                ([''invoice.pdf''], [''Miscellaneous'', ''invoice.pdf''])],
                 media_sort_enabled = False,
                 signals = [StatusUpdate Phase1, UpdateProgressRatio 1 3,
                            UpdateProgressRatio 2 3, UpdateProgressRatio 2 3,
                            UpdateProgressRatio 3 3, UpdateProgress 100, FinishedSignal],
                 error_log = []\<rparr>"
  have h: "set (dirs (disk ?e')) \<inter> set (files (disk (fresh_engine report_folder False))) = {}"
    by (simp add: fresh_engine_def report_folder_def)
  from undo_restores_without_namesake[OF flat_report_folder fresh_fresh_engine report_folder_run h]
    report_folder_run
  show ?thesis by blast
qed

text \<open>
  Claim C2 (for a folder of N files whose names overlap only as far as grouping
  goes, sort followed by undo restores exactly the original files directly under the
  folder, with no folder remaining). The undo does not restore a file whose name a
  folder created later in the run has taken. The flat folder \<open>namesake_folder\<close>
  holds the files \<open>Miscellaneous\<close>, \<open>miscellaneous_2\<close> and \<open>x.pdf\<close>. The run
  groups the first two in the folder \<open>miscellaneous\<close>, then creates the folder
  \<open>Miscellaneous\<close> for the remaining file, and completes without an error. The
  undo restores the records last to first; the original path of the first record,
  \<open>Miscellaneous\<close>, is by then a directory, so \<open>shutil.move\<close> puts the file
  inside it. After the undo the file is at \<open>Miscellaneous/Miscellaneous\<close>, not
  directly under the folder, and the folder \<open>Miscellaneous\<close> remains.
\<close>

theorem undo_misplaces_namesake_file:
  "flat_folder namesake_folder
   \<and> run (fresh_engine namesake_folder False)
     = Inr \<lparr>disk = \<lparr>files = [[''miscellaneous'', ''Miscellaneous''],
                              [''miscellaneous'', ''miscellaneous_2''],
                              [''Miscellaneous'', ''x.pdf'']],
                      dirs = [[''miscellaneous''], [''Miscellaneous'']], locked = []\<rparr>,
             moved_files = [([''Miscellaneous''], [''miscellaneous'', ''Miscellaneous'']),
                            ([''miscellaneous_2''], [''miscellaneous'', ''miscellaneous_2'']),
                            ([''x.pdf''], [''Miscellaneous'', ''x.pdf''])],
             media_sort_enabled = False,
             signals = [StatusUpdate Phase1, UpdateProgressRatio 1 3,
                        UpdateProgressRatio 2 3, UpdateProgressRatio 2 3,
                        UpdateProgressRatio 3 3, UpdateProgress 100, FinishedSignal],
             error_log = []\<rparr>
   \<and> undo_sorting
        \<lparr>disk = \<lparr>files = [[''miscellaneous'', ''Miscellaneous''],
                           [''miscellaneous'', ''miscellaneous_2''],
                           [''Miscellaneous'', ''x.pdf'']],
                   dirs = [[''miscellaneous''], [''Miscellaneous'']], locked = []\<rparr>,
          moved_files = [([''Miscellaneous''], [''miscellaneous'', ''Miscellaneous'']),
                         ([''miscellaneous_2''], [''miscellaneous'', ''miscellaneous_2'']),
                         ([''x.pdf''], [''Miscellaneous'', ''x.pdf''])],
          media_sort_enabled = False,
          signals = [StatusUpdate Phase1, UpdateProgressRatio 1 3,
                     UpdateProgressRatio 2 3, UpdateProgressRatio 2 3,
                     UpdateProgressRatio 3 3, UpdateProgress 100, FinishedSignal],
          error_log = []\<rparr>
     = \<lparr>disk = \<lparr>files = [[''x.pdf''], [''miscellaneous_2''],
                           [''Miscellaneous'', ''Miscellaneous'']],
                   dirs = [[''Miscellaneous'']], locked = []\<rparr>,
          moved_files = [([''Miscellaneous''], [''miscellaneous'', ''Miscellaneous'']),
                         ([''miscellaneous_2''], [''miscellaneous'', ''miscellaneous_2'']),
                         ([''x.pdf''], [''Miscellaneous'', ''x.pdf''])],
          media_sort_enabled = False,
          signals = [StatusUpdate Phase1, UpdateProgressRatio 1 3,
                     UpdateProgressRatio 2 3, UpdateProgressRatio 2 3,
                     UpdateProgressRatio 3 3, UpdateProgress 100, FinishedSignal],
          error_log = []\<rparr>"
  by code_simp

section \<open>The media pass splits every subfolder\<close>

lemma media_progress_refl: "media_progress S e e"
  by (simp add: media_progress_def)

lemma media_progress_trans:
  "media_progress S e e' \<Longrightarrow> media_progress S' e' e'' \<Longrightarrow> media_progress (S \<union> S') e e''"
  unfolding media_progress_def
  by (auto intro: prefix_order.trans)

lemma media_progress_mono: "media_progress S e e' \<Longrightarrow> S \<subseteq> S' \<Longrightarrow> media_progress S' e e'"
  unfolding media_progress_def by auto

lemma set_drop_prefix:
  "prefix xs ys \<Longrightarrow> set (drop n xs) \<subseteq> set (drop n ys)"
  by (auto simp: prefix_def)

lemma final_destination_None_iff:
  "final_destination fs dst = None \<longleftrightarrow>
     path_exists fs dst \<and> (\<forall>i\<in>set [1..<100]. path_exists fs (conflict_name dst i))"
  by (auto simp: final_destination_def find_None_iff)

lemma media_progress_keeps_exhausted:
  assumes "media_progress S e1 e2" and "\<forall>p\<in>S. length p = 2" and "length dst = 3"
    and "final_destination (disk e1) dst = None"
  shows "final_destination (disk e2) dst = None"
proof -
  have keep: "path_exists (disk e2) p" if "path_exists (disk e1) p" "length p = 3" for p
  proof -
    from that(2) assms(2) have "p \<notin> S" by auto
    with assms(1) that(1) show ?thesis
      unfolding media_progress_def path_exists_def by blast
  qed
  from assms(3) have ne: "dst \<noteq> []" by auto
  have "length (conflict_name dst i) = 3" for i
    using length_conflict_name[OF ne, of i] assms(3) by simp
  with keep assms(3,4) show ?thesis
    unfolding final_destination_None_iff by blast
qed

lemma media_outcome_later:
  assumes "media_outcome e e1 [s] kind f" and "media_progress S e1 e2"
    and "\<forall>p\<in>S. length p = 2" and "[s, f] \<notin> S"
  shows "media_outcome e e2 [s] kind f"
proof -
  from assms(2) have pm: "prefix (moved_files e1) (moved_files e2)"
    and ps: "prefix (signals e1) (signals e2)"
    and keep: "\<forall>p. isfile (disk e1) p \<longrightarrow> p \<notin> S \<longrightarrow> isfile (disk e2) p"
    and new: "\<forall>p. isfile (disk e2) p \<longrightarrow> isfile (disk e1) p \<or> length p = 3"
    by (simp_all add: media_progress_def)
  from assms(1) consider
    (placed) r where "r \<in> set (drop (length (moved_files e)) (moved_files e1))"
      "fst r = [s, f]" "butlast (snd r) = [s, kind]" "isfile (disk e1) (snd r)"
      "\<not> isfile (disk e1) [s, f]"
  | (reported) "StatusUpdate (TooManyConflicts [s, kind, f])
                  \<in> set (drop (length (signals e)) (signals e1))"
      "final_destination (disk e1) [s, kind, f] = None" "isfile (disk e1) [s, f]"
    by (auto simp: media_outcome_def list_ex_iff)
  then show ?thesis
  proof cases
    case placed
    from placed(3) have "length (butlast (snd r)) = 2" by simp
    then have "length (snd r) = 3" by simp
    with assms(3) have "snd r \<notin> S" by auto
    with keep placed(4) have a: "isfile (disk e2) (snd r)" by blast
    from new placed(5) have b: "\<not> isfile (disk e2) [s, f]" by auto
    from placed(1) set_drop_prefix[OF pm]
    have c: "r \<in> set (drop (length (moved_files e)) (moved_files e2))" by blast
    from a b c placed(2,3) show ?thesis
      by (auto simp: media_outcome_def list_ex_iff)
  next
    case reported
    from media_progress_keeps_exhausted[OF assms(2,3) _ reported(2)]
    have a: "final_destination (disk e2) [s, kind, f] = None" by simp
    from keep reported(3) assms(4) have b: "isfile (disk e2) [s, f]" by blast
    from reported(1) set_drop_prefix[OF ps]
    have c: "StatusUpdate (TooManyConflicts [s, kind, f])
               \<in> set (drop (length (signals e)) (signals e2))" by blast
    from a b c show ?thesis by (simp add: media_outcome_def)
  qed
qed

lemma media_outcome_earlier:
  assumes "media_outcome e1 e2 sub kind f" and "media_progress S e e1"
  shows "media_outcome e e2 sub kind f"
proof -
  from assms(2) have "length (moved_files e) \<le> length (moved_files e1)"
    "length (signals e) \<le> length (signals e1)"
    by (auto simp: media_progress_def dest: prefix_length_le)
  then have "set (drop (length (moved_files e1)) (moved_files e2))
               \<subseteq> set (drop (length (moved_files e)) (moved_files e2))"
    "set (drop (length (signals e1)) (signals e2))
               \<subseteq> set (drop (length (signals e)) (signals e2))"
    by (simp_all add: set_drop_subset_set_drop)
  with assms(1) show ?thesis
    by (auto simp: media_outcome_def list_ex_iff)
qed

lemma move_media_file_split:
  assumes "locked (disk e) = []" and "isfile (disk e) [s, f]" and "isdir (disk e) [s, kind]"
  shows "media_progress {[s, f]} e (move_media_file [s] kind e f)"
    and "media_outcome e (move_media_file [s] kind e f) [s] kind f"
proof -
  let ?e' = "move_media_file [s] kind e f"
  let ?fs = "disk e"
  from mover_outcome[OF assms(2), of "[s, kind, f]"] assms(1,3)
  consider
    (A) "final_destination ?fs [s, kind, f] = None"
      "?e' = emit (StatusUpdate (TooManyConflicts [s, kind, f])) e"
  | (C) fd where "final_destination ?fs [s, kind, f] = Some fd"
      "?e' = e\<lparr>moved_files := moved_files e @ [([s, f], fd)],
                disk := ?fs\<lparr>files := filter (\<lambda>p. p \<noteq> [s, f] \<and> p \<noteq> fd) (files ?fs) @ [fd]\<rparr>\<rparr>"
    by (auto simp: move_media_file_def)
  then have "media_progress {[s, f]} e ?e' \<and> media_outcome e ?e' [s] kind f"
  proof cases
    case A
    show ?thesis
      unfolding A(2) using A(1) assms(2)
      by (simp add: media_progress_def media_outcome_def emit_def)
  next
    case C
    have len: "length fd = 3" and bl: "butlast fd = [s, kind]"
      using final_destination_shape(1,2)[OF C(1)] by simp_all
    have ne: "\<not> path_exists ?fs fd" by (rule final_destination_Some(1)[OF C(1)])
    have neq: "fd \<noteq> [s, f]" using len by auto
    have "media_progress {[s, f]} e ?e'"
      unfolding C(2) media_progress_def using ne len
      by (auto simp: isfile_def isdir_def path_exists_def wf_disk_def)
    moreover have "media_outcome e ?e' [s] kind f"
      unfolding C(2) media_outcome_def using bl neq
      by (simp add: isfile_def)
    ultimately show ?thesis by simp
  qed
  then show "media_progress {[s, f]} e ?e'" and "media_outcome e ?e' [s] kind f" by simp_all
qed

lemma foldl_move_media_file_split:
  assumes "locked (disk e) = []" and "isdir (disk e) [s, kind]" and "distinct names"
    and "\<forall>f\<in>set names. isfile (disk e) [s, f]"
  shows "media_progress ((\<lambda>f. [s, f]) ` set names) e (foldl (move_media_file [s] kind) e names)
       \<and> (\<forall>f\<in>set names. media_outcome e (foldl (move_media_file [s] kind) e names) [s] kind f)"
  using assms
proof (induction names arbitrary: e)
  case Nil
  show ?case by (simp add: media_progress_refl)
next
  case (Cons f names)
  let ?e1 = "move_media_file [s] kind e f"
  let ?e2 = "foldl (move_media_file [s] kind) ?e1 names"
  from Cons.prems have isf: "isfile (disk e) [s, f]" by simp
  note st = move_media_file_split[OF Cons.prems(1) isf Cons.prems(2)]
  from st(1) Cons.prems(1,2) have l1: "locked (disk ?e1) = []" and d1: "isdir (disk ?e1) [s, kind]"
    by (simp_all add: media_progress_def)
  have f1: "\<forall>g\<in>set names. isfile (disk ?e1) [s, g]"
  proof
    fix g assume g: "g \<in> set names"
    with Cons.prems(3,4) have "isfile (disk e) [s, g]" "[s, g] \<notin> {[s, f]}" by auto
    with st(1) show "isfile (disk ?e1) [s, g]" unfolding media_progress_def by blast
  qed
  from Cons.prems(3) have dn: "distinct names" by simp
  from Cons.IH[OF l1 d1 dn f1] have
    p2: "media_progress ((\<lambda>f. [s, f]) ` set names) ?e1 ?e2"
    and o2: "\<forall>g\<in>set names. media_outcome ?e1 ?e2 [s] kind g" by simp_all
  have "media_progress ({[s, f]} \<union> (\<lambda>f. [s, f]) ` set names) e ?e2"
    by (rule media_progress_trans[OF st(1) p2])
  then have p: "media_progress ((\<lambda>f. [s, f]) ` set (f # names)) e ?e2" by simp
  have "media_outcome e ?e2 [s] kind f"
    by (rule media_outcome_later[OF st(2) p2]) (use Cons.prems(3) in auto)
  moreover have "media_outcome e ?e2 [s] kind g" if "g \<in> set names" for g
    using media_outcome_earlier[OF _ st(1)] o2 that by blast
  ultimately show ?case using p by simp
qed

lemma move_media_split:
  assumes "locked (disk e) = []" and "distinct names"
    and "\<forall>f\<in>set names. isfile (disk e) [s, f]"
    and "move_media [s] kind names (e, n) = Inr (e', n')"
  shows "media_progress ((\<lambda>f. [s, f]) ` set names) e e'"
    and "\<forall>f\<in>set names. media_outcome e e' [s] kind f"
proof -
  have "media_progress ((\<lambda>f. [s, f]) ` set names) e e'
        \<and> (\<forall>f\<in>set names. media_outcome e e' [s] kind f)"
  proof (cases "names = []")
    case True
    with assms(4) show ?thesis by (simp add: move_media_def media_progress_refl)
  next
    case False
    with assms(4) obtain fs' where mk: "makedirs [s, kind] (disk e) = Some fs'"
      and e': "e' = foldl (move_media_file [s] kind) (e\<lparr>disk := fs'\<rparr>) names"
      by (auto simp: move_media_def split: option.splits)
    let ?e1 = "e\<lparr>disk := fs'\<rparr>"
    note fl = makedirs_files[OF mk] and dr = makedirs_dirs[OF mk]
    have p1: "media_progress {} e ?e1"
      unfolding media_progress_def using fl dr makedirs_wf[OF mk]
      by (auto simp: isfile_def isdir_def)
    have a: "locked (disk ?e1) = []" "isdir (disk ?e1) [s, kind]"
      "\<forall>f\<in>set names. isfile (disk ?e1) [s, f]"
      using assms(1,3) fl dr by (simp_all add: isfile_def)
    from foldl_move_media_file_split[OF a(1,2) assms(2) a(3)]
    have p2: "media_progress ((\<lambda>f. [s, f]) ` set names) ?e1 e'"
      and o2: "\<forall>f\<in>set names. media_outcome ?e1 e' [s] kind f"
      by (simp_all add: e')
    from media_progress_trans[OF p1 p2] have "media_progress ((\<lambda>f. [s, f]) ` set names) e e'"
      by simp
    moreover from o2 have "\<forall>f\<in>set names. media_outcome e e' [s] kind f"
      by (simp add: media_outcome_def)
    ultimately show ?thesis by simp
  qed
  then show "media_progress ((\<lambda>f. [s, f]) ` set names) e e'"
    and "\<forall>f\<in>set names. media_outcome e e' [s] kind f" by simp_all
qed

lemma set_listing:
  "set (filter (\<lambda>f. isfile fs (sub @ [f])) (listdir fs sub)) = {f. isfile fs (sub @ [f])}"
proof -
  have "isfile fs (sub @ [f]) \<Longrightarrow> f \<in> set (listdir fs sub)" for f
    by (force simp: listdir_def isfile_def image_iff)
  then show ?thesis by auto
qed

lemma process_subdir_split:
  assumes "wf_disk (disk e)" and "locked (disk e) = []"
    and "process_subdir [s] (e, ic, vc) = Inr (e', ic', vc')"
  shows "media_progress (media_sources (disk e) {[s]}) e e'"
    and "\<forall>f. isfile (disk e) [s, f] \<longrightarrow>
           (is_image f \<longrightarrow> media_outcome e e' [s] ''Images'' f)
           \<and> (is_video f \<longrightarrow> media_outcome e e' [s] ''Videos'' f)"
proof -
  define fl where "fl = filter (\<lambda>f. isfile (disk e) ([s] @ [f])) (listdir (disk e) [s])"
  define images where "images = filter (\<lambda>f. endswith (lower f) image_extensions) fl"
  define videos where "videos = filter (\<lambda>f. endswith (lower f) video_extensions) fl"
  have dfl: "distinct fl" unfolding fl_def by (rule distinct_listing[OF assms(1)])
  have sfl: "set fl = {f. isfile (disk e) [s, f]}"
    using set_listing[of "disk e" "[s]"] by (simp add: fl_def)
  have si: "set images = {f. isfile (disk e) [s, f] \<and> is_image f}"
    and sv: "set videos = {f. isfile (disk e) [s, f] \<and> is_video f}"
    by (auto simp: images_def videos_def sfl is_image_def is_video_def)
  have di: "distinct images" and dv: "distinct videos"
    using dfl by (simp_all add: images_def videos_def)
  from assms(3) obtain e1 where
    m1: "move_media [s] ''Images'' images (e, ic) = Inr (e1, ic')"
    and m2: "move_media [s] ''Videos'' videos (e1, vc) = Inr (e', vc')"
    by (auto simp: process_subdir_def Let_def fl_def images_def videos_def
             split: sum.splits prod.splits)
  have fi: "\<forall>f\<in>set images. isfile (disk e) [s, f]" by (simp add: si)
  note i = move_media_split[OF assms(2) di fi m1]
  from i(1) assms(2) have l1: "locked (disk e1) = []" by (simp add: media_progress_def)
  have fv: "\<forall>f\<in>set videos. isfile (disk e1) [s, f]"
  proof
    fix f assume "f \<in> set videos"
    then have a: "isfile (disk e) [s, f]" "is_video f" by (simp_all add: sv)
    then have "\<not> is_image f" using image_not_video[of "lower f"]
      by (auto simp: is_image_def is_video_def)
    then have "[s, f] \<notin> (\<lambda>f. [s, f]) ` set images" by (auto simp: si)
    with i(1) a(1) show "isfile (disk e1) [s, f]" unfolding media_progress_def by blast
  qed
  note v = move_media_split[OF l1 dv fv m2]
  have "media_progress ((\<lambda>f. [s, f]) ` set images \<union> (\<lambda>f. [s, f]) ` set videos) e e'"
    by (rule media_progress_trans[OF i(1) v(1)])
  moreover have "(\<lambda>f. [s, f]) ` set images \<union> (\<lambda>f. [s, f]) ` set videos
                   \<subseteq> media_sources (disk e) {[s]}"
    by (auto simp: si sv media_sources_def)
  ultimately show "media_progress (media_sources (disk e) {[s]}) e e'"
    by (rule media_progress_mono)
  show "\<forall>f. isfile (disk e) [s, f] \<longrightarrow>
           (is_image f \<longrightarrow> media_outcome e e' [s] ''Images'' f)
           \<and> (is_video f \<longrightarrow> media_outcome e e' [s] ''Videos'' f)"
  proof (intro allI impI conjI)
    fix f assume f: "isfile (disk e) [s, f]"
    { assume im: "is_image f"
      with f i(2) have "media_outcome e e1 [s] ''Images'' f" by (simp add: si)
      moreover from im have "\<not> is_video f" using image_not_video[of "lower f"]
        by (auto simp: is_image_def is_video_def)
      then have nv: "[s, f] \<notin> (\<lambda>f. [s, f]) ` set videos" by (auto simp: sv)
      have two: "\<forall>p\<in>(\<lambda>f. [s, f]) ` set videos. length p = 2" by auto
      ultimately show "media_outcome e e' [s] ''Images'' f"
        using media_outcome_later[OF _ v(1) two nv] by blast }
    { assume "is_video f"
      with f have "f \<in> set videos" by (simp add: sv)
      with v(2) have "media_outcome e1 e' [s] ''Videos'' f" by blast
      then show "media_outcome e e' [s] ''Videos'' f"
        by (rule media_outcome_earlier[OF _ i(1)]) }
  qed
qed

lemma process_subdirs_split:
  assumes "wf_disk (disk e)" and "locked (disk e) = []"
    and "\<forall>p\<in>set subdirs. length p = 1" and "distinct subdirs"
    and "process_subdirs subdirs (e, ic, vc) = Inr (e', ic', vc')"
  shows "media_progress (media_sources (disk e) (set subdirs)) e e'
       \<and> (\<forall>s f. [s] \<in> set subdirs \<longrightarrow> isfile (disk e) [s, f] \<longrightarrow>
             (is_image f \<longrightarrow> media_outcome e e' [s] ''Images'' f)
             \<and> (is_video f \<longrightarrow> media_outcome e e' [s] ''Videos'' f))"
  using assms
proof (induction subdirs arbitrary: e ic vc)
  case Nil
  then show ?case by (simp add: media_progress_refl)
next
  case (Cons p subdirs)
  from Cons.prems(3) obtain s where p: "p = [s]" by (cases p) auto
  from Cons.prems(4) have ds: "distinct subdirs" and ns: "[s] \<notin> set subdirs"
    by (simp_all add: p)
  from Cons.prems(5) obtain e1 ic1 vc1 where
    h: "process_subdir [s] (e, ic, vc) = Inr (e1, ic1, vc1)"
    and t: "process_subdirs subdirs (e1, ic1, vc1) = Inr (e', ic', vc')"
    by (auto simp: p split: sum.splits)
  note hd = process_subdir_split[OF Cons.prems(1,2) h]
  from hd(1) Cons.prems(1,2) have w1: "wf_disk (disk e1)" and l1: "locked (disk e1) = []"
    by (simp_all add: media_progress_def)
  from Cons.prems(3) have len: "\<forall>p\<in>set subdirs. length p = 1" by simp
  from Cons.IH[OF w1 l1 len ds t] have
    tp: "media_progress (media_sources (disk e1) (set subdirs)) e1 e'"
    and tout: "\<forall>s f. [s] \<in> set subdirs \<longrightarrow> isfile (disk e1) [s, f] \<longrightarrow>
             (is_image f \<longrightarrow> media_outcome e1 e' [s] ''Images'' f)
             \<and> (is_video f \<longrightarrow> media_outcome e1 e' [s] ''Videos'' f)"
    by simp_all
  have two: "\<forall>p\<in>media_sources fs X. length p = 2" for fs X
    by (auto simp: media_sources_def)
  have sub1: "media_sources (disk e1) (set subdirs) \<subseteq> media_sources (disk e) (set (p # subdirs))"
  proof
    fix q assume "q \<in> media_sources (disk e1) (set subdirs)"
    then obtain s' f where q: "q = [s', f]" "[s'] \<in> set subdirs" "isfile (disk e1) [s', f]"
      "is_image f \<or> is_video f" by (auto simp: media_sources_def)
    from hd(1) q(3) have "isfile (disk e) [s', f]" unfolding media_progress_def by fastforce
    with q show "q \<in> media_sources (disk e) (set (p # subdirs))"
      by (auto simp: media_sources_def)
  qed
  have sub0: "media_sources (disk e) {[s]} \<subseteq> media_sources (disk e) (set (p # subdirs))"
    by (auto simp: media_sources_def p)
  have "media_progress (media_sources (disk e) {[s]} \<union> media_sources (disk e1) (set subdirs)) e e'"
    by (rule media_progress_trans[OF hd(1) tp])
  then have prog: "media_progress (media_sources (disk e) (set (p # subdirs))) e e'"
    by (rule media_progress_mono) (use sub0 sub1 in auto)
  have out: "(is_image f \<longrightarrow> media_outcome e e' [s'] ''Images'' f)
             \<and> (is_video f \<longrightarrow> media_outcome e e' [s'] ''Videos'' f)"
    if s': "[s'] \<in> set (p # subdirs)" and f: "isfile (disk e) [s', f]" for s' f
  proof (cases "s' = s")
    case True
    from hd(2) f True have
      "(is_image f \<longrightarrow> media_outcome e e1 [s'] ''Images'' f)
       \<and> (is_video f \<longrightarrow> media_outcome e e1 [s'] ''Videos'' f)" by simp
    moreover have "[s', f] \<notin> media_sources (disk e1) (set subdirs)"
      using ns True by (auto simp: media_sources_def)
    ultimately show ?thesis
      using media_outcome_later[OF _ tp two] by blast
  next
    case False
    with s' have in_rest: "[s'] \<in> set subdirs" by (simp add: p)
    have "[s', f] \<notin> media_sources (disk e) {[s]}" using False by (auto simp: media_sources_def)
    with hd(1) f have "isfile (disk e1) [s', f]" unfolding media_progress_def by blast
    with tout in_rest have
      "(is_image f \<longrightarrow> media_outcome e1 e' [s'] ''Images'' f)
       \<and> (is_video f \<longrightarrow> media_outcome e1 e' [s'] ''Videos'' f)" by blast
    then show ?thesis
      using media_outcome_earlier[OF _ hd(1)] by blast
  qed
  from prog out show ?case by blast
qed

lemma emit_outcome:
  "media_outcome e e' sub kind f \<Longrightarrow> media_outcome e (emit x e') sub kind f"
  by (auto simp: media_outcome_def emit_def)

lemma distinct_media_subdirs:
  assumes "wf_disk fs" and "distinct (dirs fs)"
  shows "distinct (media_subdirs fs)"
proof -
  let ?top = "\<lambda>p::path. p \<noteq> [] \<and> butlast p = []"
  let ?sub = "\<lambda>item. isdir fs [item] \<and> item \<notin> set [''Images'', ''Videos'']"
  have inj: "inj_on last {p. ?top p}"
  proof (rule inj_onI)
    fix p q :: path
    assume "p \<in> {p. ?top p}" "q \<in> {p. ?top p}" "last p = last q"
    then show "p = q" by (metis (mono_tags, lifting) append_butlast_last_id mem_Collect_eq)
  qed
  have single: "?top p \<Longrightarrow> [last p] = p" for p :: path
    by (metis append_butlast_last_id append_Nil)
  have a: "filter ?sub (map last (filter ?top (files fs))) = []"
  proof -
    have "\<not> isdir fs [last p]" if "p \<in> set (files fs)" "?top p" for p
      using that assms(1) single[of p] by (auto simp: wf_disk_def isdir_def)
    then show ?thesis by (auto simp: filter_empty_conv)
  qed
  have b: "distinct (map last (filter ?top (dirs fs)))"
    using assms(2) inj by (auto simp: distinct_map intro: inj_on_subset)
  have "distinct (filter ?sub (listdir fs []))"
    using a b by (simp add: listdir_def)
  then show ?thesis
    by (simp add: media_subdirs_def distinct_map inj_on_def)
qed

lemma media_pass_splits:
  assumes "wf_disk (disk e)" and "distinct (dirs (disk e))" and "locked (disk e) = []"
    and "process_media_files e = Inr e'"
  shows "\<forall>s f. [s] \<in> set (media_subdirs (disk e)) \<longrightarrow> isfile (disk e) [s, f] \<longrightarrow>
           (if is_image f then media_outcome e e' [s] ''Images'' f
            else if is_video f then media_outcome e e' [s] ''Videos'' f
            else isfile (disk e') [s, f])"
proof (intro allI impI)
  fix s f
  assume s: "[s] \<in> set (media_subdirs (disk e))" and f: "isfile (disk e) [s, f]"
  from assms(4) obtain e1 ic vc where
    r: "process_subdirs (media_subdirs (disk e)) (e, 0, 0) = Inr (e1, ic, vc)"
    and e': "e' = e1 \<or> e' = emit (StatusUpdate (SortedMedia ic vc)) e1"
    by (auto simp: process_media_files_def split: sum.splits prod.splits if_splits)
  have len: "\<forall>p\<in>set (media_subdirs (disk e)). length p = 1"
    by (auto simp: media_subdirs_def)
  from process_subdirs_split[OF assms(1,3) len distinct_media_subdirs[OF assms(1,2)] r] have
    prog: "media_progress (media_sources (disk e) (set (media_subdirs (disk e)))) e e1"
    and out: "\<forall>s f. [s] \<in> set (media_subdirs (disk e)) \<longrightarrow> isfile (disk e) [s, f] \<longrightarrow>
             (is_image f \<longrightarrow> media_outcome e e1 [s] ''Images'' f)
             \<and> (is_video f \<longrightarrow> media_outcome e e1 [s] ''Videos'' f)"
    by simp_all
  have d: "disk e' = disk e1" using e' by (auto simp: emit_def)
  show "if is_image f then media_outcome e e' [s] ''Images'' f
        else if is_video f then media_outcome e e' [s] ''Videos'' f
        else isfile (disk e') [s, f]"
  proof (cases "is_image f \<or> is_video f")
    case True
    with out s f e' show ?thesis by (auto intro: emit_outcome)
  next
    case False
    then have "[s, f] \<notin> media_sources (disk e) (set (media_subdirs (disk e)))"
      by (auto simp: media_sources_def)
    with prog f have "isfile (disk e1) [s, f]" unfolding media_progress_def by blast
    with False d show ?thesis by simp
  qed
qed

lemma no_media_clash_iff:
  "no_media_clash fs \<longleftrightarrow> (\<forall>s. \<not> isfile fs [s, ''Images''] \<and> \<not> isfile fs [s, ''Videos''])"
proof
  assume "no_media_clash fs"
  then show "\<forall>s. \<not> isfile fs [s, ''Images''] \<and> \<not> isfile fs [s, ''Videos'']"
    by (fastforce simp: no_media_clash_def list_all_iff isfile_def)
next
  assume a: "\<forall>s. \<not> isfile fs [s, ''Images''] \<and> \<not> isfile fs [s, ''Videos'']"
  have "last p \<notin> set [''Images'', ''Videos'']" if "p \<in> set (files fs)" "length p = 2" for p
  proof -
    from that(2) obtain s k where "p = [s, k]"
      by (cases p; cases "tl p") auto
    with a that(1) show ?thesis by (auto simp: isfile_def)
  qed
  then show "no_media_clash fs" by (auto simp: no_media_clash_def list_all_iff)
qed

lemma media_progress_no_clash:
  assumes "media_progress S e e'" and "no_media_clash (disk e)"
  shows "no_media_clash (disk e')"
  unfolding no_media_clash_iff
proof (intro allI conjI notI)
  fix s
  from assms(1) have new: "\<forall>p. isfile (disk e') p \<longrightarrow> isfile (disk e) p \<or> length p = 3"
    by (simp add: media_progress_def)
  { assume "isfile (disk e') [s, ''Images'']"
    with new have "isfile (disk e) [s, ''Images'']" by fastforce
    with assms(2) show False by (simp add: no_media_clash_iff) }
  { assume "isfile (disk e') [s, ''Videos'']"
    with new have "isfile (disk e) [s, ''Videos'']" by fastforce
    with assms(2) show False by (simp add: no_media_clash_iff) }
qed

lemma makedirs_two:
  assumes "isdir fs [s]" and "\<not> isfile fs [s, kind]"
  shows "\<exists>fs'. makedirs [s, kind] fs = Some fs'"
  using assms by (simp add: makedirs.simps[of "[s, kind]"] makedirs.simps[of "[s]"])

lemma move_media_completes:
  assumes "isdir (disk e) [s]" and "\<not> isfile (disk e) [s, kind]"
  shows "\<exists>e' n'. move_media [s] kind names (e, n) = Inr (e', n')"
  using makedirs_two[OF assms] by (auto simp: move_media_def)

lemma process_subdir_completes:
  assumes "wf_disk (disk e)" and "locked (disk e) = []" and "isdir (disk e) [s]"
    and "no_media_clash (disk e)"
  shows "\<exists>e' ic' vc'. process_subdir [s] (e, ic, vc) = Inr (e', ic', vc')"
proof -
  define fl where "fl = filter (\<lambda>f. isfile (disk e) ([s] @ [f])) (listdir (disk e) [s])"
  define images where "images = filter (\<lambda>f. endswith (lower f) image_extensions) fl"
  define videos where "videos = filter (\<lambda>f. endswith (lower f) video_extensions) fl"
  from assms(4) have nc: "\<not> isfile (disk e) [s, ''Images'']" "\<not> isfile (disk e) [s, ''Videos'']"
    by (simp_all add: no_media_clash_iff)
  from move_media_completes[OF assms(3) nc(1)] obtain e1 ic1 where
    m1: "move_media [s] ''Images'' images (e, ic) = Inr (e1, ic1)" by blast
  have "distinct fl" unfolding fl_def by (rule distinct_listing[OF assms(1)])
  then have di: "distinct images" by (simp add: images_def)
  have fi: "\<forall>f\<in>set images. isfile (disk e) [s, f]"
    by (auto simp: images_def fl_def)
  note i = move_media_split(1)[OF assms(2) di fi m1]
  from i assms(3) have d1: "isdir (disk e1) [s]" by (simp add: media_progress_def)
  from media_progress_no_clash[OF i assms(4)] have "\<not> isfile (disk e1) [s, ''Videos'']"
    by (simp add: no_media_clash_iff)
  from move_media_completes[OF d1 this] obtain e2 vc2 where
    m2: "move_media [s] ''Videos'' videos (e1, vc) = Inr (e2, vc2)" by blast
  from m1 m2 show ?thesis
    by (simp add: process_subdir_def Let_def fl_def images_def videos_def)
qed

lemma process_subdirs_completes:
  assumes "wf_disk (disk e)" and "locked (disk e) = []" and "no_media_clash (disk e)"
    and "\<forall>p\<in>set subdirs. \<exists>s. p = [s] \<and> isdir (disk e) [s]"
  shows "\<exists>e' ic' vc'. process_subdirs subdirs (e, ic, vc) = Inr (e', ic', vc')"
  using assms
proof (induction subdirs arbitrary: e ic vc)
  case Nil
  show ?case by simp
next
  case (Cons p subdirs)
  from Cons.prems(4) obtain s where p: "p = [s]" "isdir (disk e) [s]" by auto
  from process_subdir_completes[OF Cons.prems(1,2) p(2) Cons.prems(3)] obtain e1 ic1 vc1 where
    h: "process_subdir [s] (e, ic, vc) = Inr (e1, ic1, vc1)" by blast
  note pr = process_subdir_split(1)[OF Cons.prems(1,2) h]
  from pr Cons.prems(1,2) have w1: "wf_disk (disk e1)" and l1: "locked (disk e1) = []"
    by (simp_all add: media_progress_def)
  note n1 = media_progress_no_clash[OF pr Cons.prems(3)]
  from pr Cons.prems(4) have s1: "\<forall>p\<in>set subdirs. \<exists>s. p = [s] \<and> isdir (disk e1) [s]"
    unfolding media_progress_def by fastforce
  from Cons.IH[OF w1 l1 n1 s1] h p(1) show ?case by simp
qed

lemma media_pass_completes:
  assumes "wf_disk (disk e)" and "locked (disk e) = []" and "no_media_clash (disk e)"
  shows "\<exists>e'. process_media_files e = Inr e'"
proof -
  have "\<forall>p\<in>set (media_subdirs (disk e)). \<exists>s. p = [s] \<and> isdir (disk e) [s]"
    by (auto simp: media_subdirs_def)
  from process_subdirs_completes[OF assms this] obtain e1 ic vc where
    "process_subdirs (media_subdirs (disk e)) (e, 0, 0) = Inr (e1, ic, vc)" by blast
  then show ?thesis by (simp add: process_media_files_def)
qed

text \<open>
  Claim C9, amended: the media pass moves files only from within directories that
  lie directly under the folder when the pass starts and are not named \<open>Images\<close>
  or \<open>Videos\<close>, whether the grouping phase produced them or not, and it splits the
  files of each such directory by extension. Every record the pass appends to the
  move log has a source \<open>sub/f\<close> in such a directory \<open>sub\<close>, where \<open>f\<close> has
  an image extension and the destination lies in \<open>sub/Images\<close>, or a video
  extension and the destination lies in \<open>sub/Videos\<close>; the files directly under
  the folder are the same after the pass as before, also when the pass ends with an
  exception. When the file system is well formed, lists each directory once, and no
  move raises: the pass completes if no file one level below the folder is named
  \<open>Images\<close> or \<open>Videos\<close>; and when it completes, every file \<open>f\<close> that was
  directly in such a directory \<open>sub\<close> has been moved to \<open>sub/Images\<close> if it
  has an image extension and to \<open>sub/Videos\<close> if it has a video extension (or
  else all conflict names of its destination are taken, this was reported, and the
  file is still in \<open>sub\<close>), and is still in \<open>sub\<close> if it has neither.
\<close>

theorem media_pass_splits_subfolders:
  "(\<exists>new. moved_files (final_engine (process_media_files e)) = moved_files e @ new
          \<and> list_all (media_record (disk e)) new
          \<and> root_names (disk (final_engine (process_media_files e))) = root_names (disk e))
   \<and> (wf_disk (disk e) \<and> distinct (dirs (disk e)) \<and> locked (disk e) = [] \<longrightarrow>
        (no_media_clash (disk e) \<longrightarrow> (\<exists>e'. process_media_files e = Inr e'))
        \<and> (\<forall>e' s f. process_media_files e = Inr e' \<and> [s] \<in> set (media_subdirs (disk e))
                      \<and> isfile (disk e) [s, f] \<longrightarrow>
               (if is_image f then media_outcome e e' [s] ''Images'' f
                else if is_video f then media_outcome e e' [s] ''Videos'' f
                else isfile (disk e') [s, f])))"
proof (intro conjI impI allI)
  show "\<exists>new. moved_files (final_engine (process_media_files e)) = moved_files e @ new
          \<and> list_all (media_record (disk e)) new
          \<and> root_names (disk (final_engine (process_media_files e))) = root_names (disk e)"
    using process_media_files_step[of e] by (auto simp: media_step_def appends_def)
next
  assume "wf_disk (disk e) \<and> distinct (dirs (disk e)) \<and> locked (disk e) = []"
    and "no_media_clash (disk e)"
  then show "\<exists>e'. process_media_files e = Inr e'"
    using media_pass_completes by blast
next
  fix e' s f
  assume "wf_disk (disk e) \<and> distinct (dirs (disk e)) \<and> locked (disk e) = []"
    and "process_media_files e = Inr e' \<and> [s] \<in> set (media_subdirs (disk e))
           \<and> isfile (disk e) [s, f]"
  then show "if is_image f then media_outcome e e' [s] ''Images'' f
             else if is_video f then media_outcome e e' [s] ''Videos'' f
             else isfile (disk e') [s, f]"
    using media_pass_splits[of e e'] by blast
qed

lemma album_engine_pass:
  "process_media_files album_engine
   = Inr \<lparr>disk = \<lparr>files = [[''trip'', ''notes.txt''], [''trip'', ''Images'', ''pic.JPG''],
                            [''top.jpg''], [''trip'', ''Images'', ''pic-CF1.JPG''],
                            [''trip'', ''Videos'', ''clip.mp4'']],
                    dirs = [[''trip''], [''trip'', ''Images''], [''trip'', ''Videos'']],
                    locked = []\<rparr>,
           moved_files = [([''trip'', ''pic.JPG''], [''trip'', ''Images'', ''pic-CF1.JPG'']),
                          ([''trip'', ''clip.mp4''], [''trip'', ''Videos'', ''clip.mp4''])],
           media_sort_enabled = True,
           signals = [StatusUpdate (SortedMedia 1 1)], error_log = []\<rparr>"
  by code_simp

theorem media_pass_splits_subfolders_witness:
  "wf_disk (disk album_engine) \<and> distinct (dirs (disk album_engine))
   \<and> locked (disk album_engine) = []
   \<and> no_media_clash (disk album_engine)
   \<and> (\<exists>e'. process_media_files album_engine = Inr e'
        \<and> moved_files e' = [([''trip'', ''pic.JPG''], [''trip'', ''Images'', ''pic-CF1.JPG'']),
                             ([''trip'', ''clip.mp4''], [''trip'', ''Videos'', ''clip.mp4''])]
        \<and> media_outcome album_engine e' [''trip''] ''Images'' ''pic.JPG''
        \<and> media_outcome album_engine e' [''trip''] ''Videos'' ''clip.mp4''
        \<and> isfile (disk e') [''trip'', ''notes.txt''])"
proof -
  have wf: "wf_disk (disk album_engine) \<and> distinct (dirs (disk album_engine))
            \<and> locked (disk album_engine) = []"
    by (simp add: album_engine_def wf_disk_def)
  have nc: "no_media_clash (disk album_engine)"
    by (simp add: album_engine_def no_media_clash_def)
  have sub: "[''trip''] \<in> set (media_subdirs (disk album_engine))"
    by code_simp
  have fl: "isfile (disk album_engine) [''trip'', ''pic.JPG'']"
    "isfile (disk album_engine) [''trip'', ''clip.mp4'']"
    "isfile (disk album_engine) [''trip'', ''notes.txt'']"
    by (simp_all add: album_engine_def isfile_def)
  have kinds: "is_image ''pic.JPG''" "\<not> is_image ''clip.mp4''" "is_video ''clip.mp4''"
    "\<not> is_image ''notes.txt''" "\<not> is_video ''notes.txt''"
    by code_simp+
  from media_pass_splits_subfolders[of album_engine] wf
  have split: "\<forall>e' s f. process_media_files album_engine = Inr e'
                 \<and> [s] \<in> set (media_subdirs (disk album_engine))
                 \<and> isfile (disk album_engine) [s, f] \<longrightarrow>
               (if is_image f then media_outcome album_engine e' [s] ''Images'' f
                else if is_video f then media_outcome album_engine e' [s] ''Videos'' f
                else isfile (disk e') [s, f])"
    by blast
  note run = album_engine_pass
  from split run sub fl(1) kinds(1)
  have a: "media_outcome album_engine (projr (process_media_files album_engine))
             [''trip''] ''Images'' ''pic.JPG''"
    by (metis sum.sel(2))
  from split run sub fl(2) kinds(2,3)
  have b: "media_outcome album_engine (projr (process_media_files album_engine))
             [''trip''] ''Videos'' ''clip.mp4''"
    by (metis sum.sel(2))
  from split run sub fl(3) kinds(4,5)
  have c: "isfile (disk (projr (process_media_files album_engine))) [''trip'', ''notes.txt'']"
    by (metis sum.sel(2))
  have m: "moved_files (projr (process_media_files album_engine))
           = [([''trip'', ''pic.JPG''], [''trip'', ''Images'', ''pic-CF1.JPG'']),
              ([''trip'', ''clip.mp4''], [''trip'', ''Videos'', ''clip.mp4''])]"
    by (simp add: run)
  have "process_media_files album_engine = Inr (projr (process_media_files album_engine))"
    by (simp add: run)
  with a b c m wf nc show ?thesis by blast
qed

end
